theory Spec2Isabelle
  imports Main "HOL-Library.Multiset"
begin

section \<open>Data model\<close>

text \<open>
  The engine of \<^verbatim>\<open>include/metaquest/game.h\<close> works on parties of characters. The
  headers that declare the attribute object, the character and the party
  (\<^verbatim>\<open>object.h\<close>, \<^verbatim>\<open>character.h\<close>, \<^verbatim>\<open>party.h\<close>, \<^verbatim>\<open>action.h\<close>) are not part of the
  sources at hand; what the engine needs of them is modelled from the specification and
  marked as such. Attribute values are the C++ type \<^verbatim>\<open>long\<close>, modelled as \<^typ>\<open>int\<close>;
  where the machine representation shows (a \<^verbatim>\<open>long\<close> compared with or divided by a
  \<^verbatim>\<open>size_t\<close>, both 64 bits wide) the conversion is written out.
\<close>

datatype scope = self | ally | party | enemy | enemies | everyone

datatype filter_kind = none | onlyHealthy | onlyAlive | onlyUnhealthy | onlyDead | onlyUndefeated

datatype state = menu | combat | victory | defeat | exit

datatype error = UnknownAction | InsufficientResource | OutOfBounds | DivisionByZero

datatype item = Item string

text \<open>
  Modelled from the spec: the attribute object of \<^verbatim>\<open>object.h\<close>, a store of direct values
  and a table of derived (function) attributes that are evaluated on every read. A derived
  attribute is a function of the stored values.
\<close>

record object =
  attribute :: "string \<rightharpoonup> int"
  function_attr :: "string \<rightharpoonup> ((string \<rightharpoonup> int) \<Rightarrow> int)"

text \<open>
  Modelled from the spec: the action descriptor of \<^verbatim>\<open>action.h\<close> (scope, filter, resource
  costs as amount and attribute key, visibility). The effect function is kept in a table
  of its own, see \<open>invoke\<close>.
\<close>

record action =
  act_scope :: scope
  act_filter :: filter_kind
  act_costs :: "(int \<times> string) list"
  act_visible :: bool

text \<open>Modelled from the spec: the character of \<^verbatim>\<open>character.h\<close> and the party of \<^verbatim>\<open>party.h\<close>.\<close>

record character = object +
  equipment :: "item list"
  actions_bound :: "string \<rightharpoonup> action"

record party =
  members :: "character list"
  inventory :: "item list"

text \<open>
  The game object of \<^verbatim>\<open>game.h\<close>: itself an attribute object (it stores the wanted number of
  parties under the key \<^verbatim>\<open>parties\<close>), the vector of parties and the exit flag. There is no
  field for the phase and none for a turn queue.
\<close>

record game = object +
  parties :: "party list"
  willExit :: bool

text \<open>
  A pointer to a character that lives in the parties is its position: the index of the
  party and the index within the party.
\<close>

type_synonym cref = "nat \<times> nat"

subsection \<open>Attribute access and the derived predicates\<close>

text \<open>
  Modelled from the spec: \<^verbatim>\<open>get(key)\<close> evaluates the function attribute if one is
  registered, else returns the stored value, else the default 0.
\<close>

definition get :: "'a object_scheme \<Rightarrow> string \<Rightarrow> int" where
  "get ob k =
     (case function_attr ob k of
        Some f \<Rightarrow> f (attribute ob)
      | None \<Rightarrow> (case attribute ob k of Some v \<Rightarrow> v | None \<Rightarrow> 0))"

text \<open>Modelled from the spec: \<^verbatim>\<open>alive\<close> is HP/Current > 0; \<^verbatim>\<open>able\<close> is alive.\<close>

definition alive :: "'a object_scheme \<Rightarrow> bool" where
  "alive c = (0 < get c ''HP/Current'')"

definition able :: "'a object_scheme \<Rightarrow> bool" where
  "able c = alive c"

text \<open>Modelled from the spec: a party is defeated iff every member is not alive.\<close>

definition defeated :: "party \<Rightarrow> bool" where
  "defeated p = list_all (\<lambda>c. \<not> alive c) (members p)"

section \<open>The phase of the match\<close>

text \<open>
  \<^verbatim>\<open>base::state\<close>: the loop over the party indices, started at 0 by \<open>state\<close>. The
  subtraction \<^verbatim>\<open>parties.size() - pi - 1\<close> is on \<^verbatim>\<open>size_t\<close> and cannot wrap, since
  \<^verbatim>\<open>pi < parties.size()\<close> inside the loop.
\<close>

function state_loop :: "party list \<Rightarrow> nat \<Rightarrow> state" where
  "state_loop ps pi =
     (if pi < length ps then
        (if defeated (ps ! pi) then
           (if length ps - pi - 1 = 0 then victory else defeat)
         else state_loop ps (Suc pi))
      else combat)"
  by pat_completeness auto
termination
  by (relation "measure (\<lambda>(ps, pi). length ps - pi)") auto

declare state_loop.simps [simp del]

definition state :: "game \<Rightarrow> state" where
  "state g =
     (if willExit g then exit
      else if length (parties g) = 1 then menu
      else state_loop (parties g) 0)"

section \<open>Turn order\<close>

text \<open>
  The position of every member of party \<open>pi\<close>, in member order, and of every character
  of the match, in party order: the pointers that the loops over \<^verbatim>\<open>parties\<close> push.
\<close>

definition party_refs :: "party list \<Rightarrow> nat \<Rightarrow> cref list" where
  "party_refs ps pi = map (\<lambda>i. (pi, i)) [0..<length (members (ps ! pi))]"

definition all_refs :: "party list \<Rightarrow> cref list" where
  "all_refs ps = concat (map (party_refs ps) [0..<length ps])"

definition valid_ref :: "party list \<Rightarrow> cref \<Rightarrow> bool" where
  "valid_ref ps h = (fst h < length ps \<and> snd h < length (members (ps ! fst h)))"

definition character_at :: "party list \<Rightarrow> cref \<Rightarrow> character" where
  "character_at ps h = members (ps ! fst h) ! snd h"

text \<open>
  \<^verbatim>\<open>std::random_shuffle\<close> as the standard library runs it: for each position \<open>i\<close> from 1
  on, the element at \<open>i\<close> is swapped with the one at a drawn position \<open>j \<le> i\<close>. The
  draws are a parameter: \<open>rnd i\<close> is the random number drawn at position \<open>i\<close>.
\<close>

definition iter_swap :: "'a list \<Rightarrow> nat \<Rightarrow> nat \<Rightarrow> 'a list" where
  "iter_swap xs i j = xs[i := xs ! j, j := xs ! i]"

function shuffle_loop :: "(nat \<Rightarrow> nat) \<Rightarrow> nat \<Rightarrow> 'a list \<Rightarrow> 'a list" where
  "shuffle_loop rnd i xs =
     (if i < length xs then shuffle_loop rnd (Suc i) (iter_swap xs i (rnd i mod (i + 1)))
      else xs)"
  by pat_completeness auto
termination
  by (relation "measure (\<lambda>(rnd, i, xs). length xs - i)") (auto simp: iter_swap_def)

declare shuffle_loop.simps [simp del]

definition random_shuffle :: "(nat \<Rightarrow> nat) \<Rightarrow> 'a list \<Rightarrow> 'a list" where
  "random_shuffle rnd xs = shuffle_loop rnd 1 xs"

text \<open>
  The list after the steps of the shuffle loop at the positions below \<open>m\<close>; the loop run
  to the end is \<open>shuffle_upto rnd (length xs) xs\<close>. It serves to reason about the loop
  from its last step backwards.
\<close>

definition shuffle_upto :: "(nat \<Rightarrow> nat) \<Rightarrow> nat \<Rightarrow> 'a list \<Rightarrow> 'a list" where
  "shuffle_upto rnd m xs = fold (\<lambda>k ys. iter_swap ys k (rnd k mod (k + 1))) [1..<m] xs"

text \<open>
  \<^verbatim>\<open>base::turnOrder\<close>: all characters of all parties, those that are able copied in order,
  then shuffled. \<^verbatim>\<open>base::nextCharacter\<close> reads element 0 of that vector; on an empty
  vector the C++ read is out of bounds, which is the value \<open>None\<close> here.
\<close>

definition turnOrder :: "(nat \<Rightarrow> nat) \<Rightarrow> game \<Rightarrow> cref list" where
  "turnOrder rnd g =
     (let candidates = all_refs (parties g);
          filteredCandidates = filter (\<lambda>cha. able (character_at (parties g) cha)) candidates
      in random_shuffle rnd filteredCandidates)"

definition nextCharacter :: "(nat \<Rightarrow> nat) \<Rightarrow> game \<Rightarrow> cref option" where
  "nextCharacter rnd g = (case turnOrder rnd g of [] \<Rightarrow> None | c # _ \<Rightarrow> Some c)"

section \<open>Target resolution\<close>

text \<open>
  \<^verbatim>\<open>base::partyOf\<close>: the first party index at which some member has the address of \<open>c\<close>,
  and 0 when there is none. \<^verbatim>\<open>base::useAI\<close>: every party but party 0 is run by the AI.
\<close>

definition partyOf :: "party list \<Rightarrow> cref \<Rightarrow> nat" where
  "partyOf ps c =
     (case find (\<lambda>pi. list_ex (\<lambda>ca. ca = c) (party_refs ps pi)) [0..<length ps] of
        Some pi \<Rightarrow> pi
      | None \<Rightarrow> 0)"

definition useAI :: "party list \<Rightarrow> cref \<Rightarrow> bool" where
  "useAI ps c = (0 < partyOf ps c)"

text \<open>
  The first switch of \<^verbatim>\<open>base::resolve(c, s)\<close>: the candidates of a scope. The read
  \<^verbatim>\<open>parties[p]\<close> is out of bounds when there is no party at all.
\<close>

definition candidates :: "party list \<Rightarrow> cref \<Rightarrow> scope \<Rightarrow> error + cref list" where
  "candidates ps c sc =
     (let p = partyOf ps c;
          own = (if p < length ps then Inr (party_refs ps p) else Inl OutOfBounds);
          others = Inr (concat (map (\<lambda>pi. if pi \<noteq> p then party_refs ps pi else [])
                                    [0..<length ps]))
      in case sc of
           self \<Rightarrow> Inr [c]
         | ally \<Rightarrow> own
         | party \<Rightarrow> own
         | enemy \<Rightarrow> others
         | enemies \<Rightarrow> others
         | everyone \<Rightarrow> Inr (all_refs ps))"

text \<open>
  Modelled from the spec: \<^verbatim>\<open>defeated()\<close> of a character (\<^verbatim>\<open>character.h\<close>) holds when its
  entire owning party is not alive.
\<close>

definition character_defeated :: "party list \<Rightarrow> cref \<Rightarrow> bool" where
  "character_defeated ps h = defeated (ps ! fst h)"

text \<open>The second switch of \<^verbatim>\<open>base::resolve(c, s)\<close>: the predicate of each filter.\<close>

definition keeps :: "party list \<Rightarrow> filter_kind \<Rightarrow> cref \<Rightarrow> bool" where
  "keeps ps f cha =
     (case f of
        none \<Rightarrow> True
      | onlyHealthy \<Rightarrow>
          get (character_at ps cha) ''HP/Current'' = get (character_at ps cha) ''HP/Total''
      | onlyAlive \<Rightarrow> alive (character_at ps cha)
      | onlyUnhealthy \<Rightarrow>
          alive (character_at ps cha) \<and>
          get (character_at ps cha) ''HP/Current'' < get (character_at ps cha) ''HP/Total''
      | onlyDead \<Rightarrow> \<not> alive (character_at ps cha)
      | onlyUndefeated \<Rightarrow> \<not> character_defeated ps cha)"

definition filterCandidates :: "party list \<Rightarrow> filter_kind \<Rightarrow> cref list \<Rightarrow> cref list" where
  "filterCandidates ps f cands = (if f = none then cands else filter (keeps ps f) cands)"

text \<open>
  The interactive single-target chooser \<^verbatim>\<open>interact.query(game, c, candidates, 8)\<close> is an
  external collaborator, hence a parameter; \<open>None\<close> is a cancelled selection.
\<close>

type_synonym chooser = "game \<Rightarrow> cref \<Rightarrow> cref list \<Rightarrow> cref list option"

text \<open>
  \<^verbatim>\<open>base::resolve(c, s)\<close>, the target resolution. The actor is given by its position, so
  it is a character of the match; a position at which there is no character stands for
  no C++ reference and gives \<open>OutOfBounds\<close>. Modelled from the spec: \<^verbatim>\<open>scope(s)\<close> and
  \<^verbatim>\<open>filter(s)\<close> are lookups in the actor's bound actions that fail with
  \<open>UnknownAction\<close>. The result \<open>Inr None\<close> is the empty \<^verbatim>\<open>efgy::maybe\<close>.
\<close>

definition resolveTargets :: "chooser \<Rightarrow> game \<Rightarrow> cref \<Rightarrow> string \<Rightarrow> error + cref list option" where
  "resolveTargets query g c s =
     (if \<not> valid_ref (parties g) c then Inl OutOfBounds
      else case actions_bound (character_at (parties g) c) s of
        None \<Rightarrow> Inl UnknownAction
      | Some a \<Rightarrow>
          (case candidates (parties g) c (act_scope a) of
             Inl e \<Rightarrow> Inl e
           | Inr cands \<Rightarrow>
               (let filteredCandidates = filterCandidates (parties g) (act_filter a) cands
                in if length filteredCandidates = 0 then Inr None
                   else case act_scope a of
                          self \<Rightarrow> Inr (Some filteredCandidates)
                        | party \<Rightarrow> Inr (Some filteredCandidates)
                        | enemies \<Rightarrow> Inr (Some filteredCandidates)
                        | everyone \<Rightarrow> Inr (Some filteredCandidates)
                        | ally \<Rightarrow> Inr (query g c filteredCandidates)
                        | enemy \<Rightarrow> Inr (query g c filteredCandidates))))"

section \<open>Attribute updates and invocation\<close>

text \<open>
  Modelled from the spec: \<^verbatim>\<open>add(key, delta)\<close> is \<^verbatim>\<open>stored[key] += delta\<close>, creating the
  value at the default if absent; \<^verbatim>\<open>add(key, capKey, delta)\<close> is
  \<^verbatim>\<open>stored[key] = clamp(stored[key] + delta, 0, get(capKey))\<close>.
\<close>

definition stored :: "'a object_scheme \<Rightarrow> string \<Rightarrow> int" where
  "stored ob k = (case attribute ob k of Some v \<Rightarrow> v | None \<Rightarrow> 0)"

definition add :: "'a object_scheme \<Rightarrow> string \<Rightarrow> int \<Rightarrow> 'a object_scheme" where
  "add ob k delta = ob\<lparr>attribute := (attribute ob)(k \<mapsto> stored ob k + delta)\<rparr>"

definition clamp :: "int \<Rightarrow> int \<Rightarrow> int \<Rightarrow> int" where
  "clamp v lo hi = min hi (max lo v)"

definition add_capped :: "'a object_scheme \<Rightarrow> string \<Rightarrow> string \<Rightarrow> int \<Rightarrow> 'a object_scheme" where
  "add_capped ob k capKey delta =
     ob\<lparr>attribute := (attribute ob)(k \<mapsto> clamp (stored ob k + delta) 0 (get ob capKey))\<rparr>"

text \<open>
  The effect function of an action takes the sources and the targets and changes
  characters through those pointers; it is looked up by the action's name, and it may
  change the parties' characters but not the game's own fields.
\<close>

type_synonym effect = "cref list \<Rightarrow> cref list \<Rightarrow> party list \<Rightarrow> string \<times> party list"

definition update_character :: "party list \<Rightarrow> cref \<Rightarrow> character \<Rightarrow> party list" where
  "update_character ps h ch =
     ps[fst h := (ps ! fst h)\<lparr>members := (members (ps ! fst h))[snd h := ch]\<rparr>]"

text \<open>
  Modelled from the spec: \<^verbatim>\<open>invoke(name, targets)\<close> of \<^verbatim>\<open>character.h\<close> (the call
  \<^verbatim>\<open>target(s, targets.just)\<close> of the engine). A cost is affordable when the character's
  value for the cost's attribute is at least the amount; if some cost is not, the call
  signals \<open>InsufficientResource\<close> and changes nothing; else it deducts the costs and
  calls the effect function with the actor as the only source.
\<close>

definition affordable :: "'a object_scheme \<Rightarrow> int \<times> string \<Rightarrow> bool" where
  "affordable ch cost = (fst cost \<le> get ch (snd cost))"

definition deduct :: "character \<Rightarrow> (int \<times> string) list \<Rightarrow> character" where
  "deduct ch costs = fold (\<lambda>cost ob. add ob (snd cost) (- fst cost)) costs ch"

definition invoke ::
  "(string \<Rightarrow> effect) \<Rightarrow> game \<Rightarrow> cref \<Rightarrow> string \<Rightarrow> cref list \<Rightarrow> (error + string) \<times> game" where
  "invoke E g c s targets =
     (if \<not> valid_ref (parties g) c then (Inl OutOfBounds, g)
      else case actions_bound (character_at (parties g) c) s of
        None \<Rightarrow> (Inl UnknownAction, g)
      | Some a \<Rightarrow>
          if \<not> list_all (affordable (character_at (parties g) c)) (act_costs a)
          then (Inl InsufficientResource, g)
          else (case E s [c] targets
                       (update_character (parties g) c
                          (deduct (character_at (parties g) c) (act_costs a))) of
                  (description, ps') \<Rightarrow> (Inr description, g\<lparr>parties := ps'\<rparr>)))"

text \<open>
  \<^verbatim>\<open>rules::simple::heal\<close> and \<^verbatim>\<open>rules::simple::pass\<close>, two effect functions of the simple
  rule set. For every source and every target, \<^verbatim>\<open>heal\<close> skips a target with less than 2
  MP/Current, else takes 2 MP/Current from the target and adds the rolled amount to its
  HP/Current, capped by HP/Total. The dice are a parameter: \<open>roll s t\<close> is the amount
  rolled for source \<open>s\<close> and target \<open>t\<close>. The text written to the description is not
  modelled.
\<close>

definition heal_target :: "int \<Rightarrow> character \<Rightarrow> character" where
  "heal_target amt t =
     (if get t ''MP/Current'' < 2 then t
      else add_capped (add t ''MP/Current'' (- 2)) ''HP/Current'' ''HP/Total'' amt)"

definition heal :: "(cref \<Rightarrow> cref \<Rightarrow> int) \<Rightarrow> effect" where
  "heal roll source target ps =
     ([], fold (\<lambda>s ps1. fold (\<lambda>t ps2. update_character ps2 t
                                        (heal_target (roll s t) (character_at ps2 t)))
                           target ps1)
               source ps)"

definition pass :: effect where
  "pass source target ps = ([], ps)"

section \<open>Menu actions and the resolution loop\<close>

text \<open>
  A menu handler is called with the retry flag cleared and the actor; it returns its
  description, the retry flag as it leaves it, and the game as it leaves it.
\<close>

type_synonym handler = "cref \<Rightarrow> game \<Rightarrow> string \<times> bool \<times> game"

definition ignore :: handler where
  "ignore c g = (''Scratch that.'', True, g)"

definition quit :: handler where
  "quit c g = (''Quit.'', False, g\<lparr>willExit := True\<rparr>)"

definition inspect :: handler where
  "inspect c g = (''Let's see...'', True, g)"

text \<open>
  The C++ conversions of a \<^verbatim>\<open>long\<close> to \<^verbatim>\<open>size_t\<close> and back, 64 bits wide: a comparison
  or a division of a \<^verbatim>\<open>long\<close> with a \<^verbatim>\<open>size()\<close> is carried out unsigned.
\<close>

definition to_unsigned :: "int \<Rightarrow> int" where
  "to_unsigned x = x mod 2 ^ 64"

definition to_long :: "int \<Rightarrow> int" where
  "to_long u = (if u mod 2 ^ 64 < 2 ^ 63 then u mod 2 ^ 64 else u mod 2 ^ 64 - 2 ^ 64)"

text \<open>
  \<^verbatim>\<open>base::generateParties\<close>: parties are appended while there are fewer than the game's
  attribute \<^verbatim>\<open>parties\<close> asks for. The rule set's factory is a parameter: \<open>gen n\<close> is the
  party it makes when \<open>n\<close> parties exist.
\<close>

function generateParties :: "(nat \<Rightarrow> party) \<Rightarrow> game \<Rightarrow> game" where
  "generateParties gen g =
     (if int (length (parties g)) < to_unsigned (get g ''parties'')
      then generateParties gen (g\<lparr>parties := parties g @ [gen (length (parties g))]\<rparr>)
      else g)"
  by pat_completeness auto
termination
  by (relation "measure (\<lambda>(gen, g). nat (to_unsigned (get g ''parties'')) - length (parties g))")
    (auto simp: get_def split: option.split)

declare generateParties.simps [simp del]

text \<open>\<^verbatim>\<open>rules::simple::game::fight\<close>: ask for two parties and generate them.\<close>

definition fight :: "(nat \<Rightarrow> party) \<Rightarrow> handler" where
  "fight gen c g =
     (''OFF WITH THEIR HEADS!'' @ [CHR 0x0A], False,
      generateParties gen (g\<lparr>attribute := (attribute g)(''parties'' \<mapsto> 2)\<rparr>))"

text \<open>\<^verbatim>\<open>base::actions\<close> and its override \<^verbatim>\<open>rules::simple::game::actions\<close>.\<close>

definition base_actions :: "game \<Rightarrow> cref \<Rightarrow> (string \<rightharpoonup> handler)" where
  "base_actions g c =
     (if \<not> useAI (parties g) c then [''Quit/Yes'' \<mapsto> quit, ''Quit/No'' \<mapsto> ignore]
      else Map.empty)"

definition actions :: "(nat \<Rightarrow> party) \<Rightarrow> game \<Rightarrow> cref \<Rightarrow> (string \<rightharpoonup> handler)" where
  "actions gen g c =
     (let acts = base_actions g c;
          acts1 = (case state g of menu \<Rightarrow> acts(''Fight'' \<mapsto> fight gen) | _ \<Rightarrow> acts)
      in if \<not> useAI (parties g) c then acts1(''Inspect'' \<mapsto> inspect) else acts1)"

text \<open>
  \<^verbatim>\<open>base::resolve(target, actions, allowCharacterActions)\<close>, the menu loop. The answers of
  the interaction surface are a script: each round takes the next label, together with
  the chooser that answers a target query in that round. A script that ends before the
  loop does gives \<open>None\<close>. The labels offered to the surface do not restrict its answer,
  so they are not part of the model.
\<close>

fun resolve ::
  "(string \<Rightarrow> effect) \<Rightarrow> (string \<rightharpoonup> handler) \<Rightarrow> cref \<Rightarrow> (string \<times> chooser) list \<Rightarrow> game
   \<Rightarrow> ((error + string) \<times> game) option" where
  "resolve E acts target [] g = None"
| "resolve E acts target ((s, query) # script) g =
     (if s = ''Cancel'' then resolve E acts target script g
      else case acts s of
        Some h \<Rightarrow>
          (case h target g of
             (res, retry, g') \<Rightarrow>
               if retry then resolve E acts target script g' else Some (Inr res, g'))
      | None \<Rightarrow>
          (case resolveTargets query g target s of
             Inl e \<Rightarrow> Some (Inl e, g)
           | Inr None \<Rightarrow> resolve E acts target script g
           | Inr (Some targets) \<Rightarrow>
               if length targets < 1 then resolve E acts target script g
               else Some (invoke E g target s targets)))"

text \<open>\<^verbatim>\<open>base::doMenuAction\<close>, which \<^verbatim>\<open>doMenu\<close> and \<^verbatim>\<open>doCombat\<close> call.\<close>

definition doMenuAction ::
  "(nat \<Rightarrow> nat) \<Rightarrow> (nat \<Rightarrow> party) \<Rightarrow> (string \<Rightarrow> effect) \<Rightarrow> (string \<times> chooser) list \<Rightarrow> game
   \<Rightarrow> ((error + string) \<times> game) option" where
  "doMenuAction rnd gen E script g =
     (case nextCharacter rnd g of
        None \<Rightarrow> Some (Inl OutOfBounds, g)
      | Some c \<Rightarrow> resolve E (actions gen g c) c script g)"

section \<open>Victory and defeat\<close>

text \<open>
  \<^verbatim>\<open>base::doVictory\<close>: \<^verbatim>\<open>parties.erase(parties.begin() + 1)\<close>, which is defined only when
  there is a party at index 1.
\<close>

definition base_doVictory :: "game \<Rightarrow> (error + string) \<times> game" where
  "base_doVictory g =
     (if length (parties g) < 2 then (Inl OutOfBounds, g)
      else (Inr ''The player party was victorious!'',
            g\<lparr>parties := take 1 (parties g) @ drop 2 (parties g)\<rparr>))"

definition doDefeat :: "game \<Rightarrow> (error + string) \<times> game" where
  "doDefeat g = (Inr ''The player party was defeated!'', g)"

text \<open>
  \<^verbatim>\<open>rules::simple::game::doVictory\<close>. The division \<^verbatim>\<open>xp /= p.size()\<close> divides a \<^verbatim>\<open>long\<close> by
  a \<^verbatim>\<open>size_t\<close>: the dividend is converted to unsigned, and the quotient back to \<^verbatim>\<open>long\<close>.
  Division by a size of 0 is undefined.
\<close>

definition long_div_size :: "int \<Rightarrow> nat \<Rightarrow> int" where
  "long_div_size xp n = to_long (to_unsigned xp div int n)"

definition loot :: "item list \<times> int \<Rightarrow> character \<Rightarrow> item list \<times> int" where
  "loot acc c = (fst acc @ equipment c, snd acc + get c ''Experience'')"

definition doVictory :: "game \<Rightarrow> (error + string) \<times> game" where
  "doVictory g =
     (if 1 < length (parties g) then
        (let p = parties g ! 0;
             d = parties g ! 1;
             acc = foldl loot (inventory p @ inventory d, 0) (members d)
         in if length (members p) = 0 then (Inl DivisionByZero, g)
            else
              (let xp = long_div_size (snd acc) (length (members p));
                   xp' = (if xp = 0 then 1 else xp);
                   p' = p\<lparr>members := map (\<lambda>c. add c ''Experience'' xp') (members p),
                          inventory := fst acc\<rparr>
               in base_doVictory (g\<lparr>parties := (parties g)[0 := p']\<rparr>)))
      else base_doVictory g)"

text \<open>
  \<^verbatim>\<open>base::operator()(command)\<close>: a function bound to the game under the command's name is
  applied to the game as an attribute object, so it reaches the attributes only. The table
  of bound functions is a parameter.
\<close>

definition run_command ::
  "(string \<rightharpoonup> (object \<Rightarrow> string \<times> object)) \<Rightarrow> string \<Rightarrow> game \<Rightarrow> string \<times> game" where
  "run_command action command g =
     (case action command of
        Some apply \<Rightarrow>
          (case apply (object.truncate g) of
             (description, ob) \<Rightarrow>
               (description, g\<lparr>attribute := attribute ob, function_attr := function_attr ob\<rparr>))
      | None \<Rightarrow>
          (command @ '' is not something that came up while writing this game'' @ [CHR 0x0A], g))"

text \<open>
  One operation of the game object: a menu handler, the generation of parties, an action
  invoked on targets, a whole menu or combat turn, the handling of victory or defeat, or
  a bound command.
\<close>

inductive step :: "game \<Rightarrow> game \<Rightarrow> bool" where
  step_quit: "quit c g = (r, b, g') \<Longrightarrow> step g g'"
| step_ignore: "ignore c g = (r, b, g') \<Longrightarrow> step g g'"
| step_inspect: "inspect c g = (r, b, g') \<Longrightarrow> step g g'"
| step_fight: "fight gen c g = (r, b, g') \<Longrightarrow> step g g'"
| step_generateParties: "generateParties gen g = g' \<Longrightarrow> step g g'"
| step_invoke: "invoke E g c s targets = (res, g') \<Longrightarrow> step g g'"
| step_doMenuAction: "doMenuAction rnd gen E script g = Some (res, g') \<Longrightarrow> step g g'"
| step_doVictory: "doVictory g = (res, g') \<Longrightarrow> step g g'"
| step_base_doVictory: "base_doVictory g = (res, g') \<Longrightarrow> step g g'"
| step_doDefeat: "doDefeat g = (res, g') \<Longrightarrow> step g g'"
| step_run_command: "run_command action command g = (description, g') \<Longrightarrow> step g g'"

section \<open>Scenarios\<close>

text \<open>
  Concrete data on which the theorems below are run. A character as the constructor of
  \<^verbatim>\<open>rules::simple::character\<close> binds it: Attack on one enemy of an undefeated party,
  Skill/Heal on one unhealthy ally for 2 MP (read from the attribute MP/Current), Pass on
  oneself; HP/Total is a function attribute.
\<close>

definition mk_character :: "int \<Rightarrow> int \<Rightarrow> int \<Rightarrow> int \<Rightarrow> character" where
  "mk_character hp tot mp xp =
     \<lparr>attribute = [''HP/Current'' \<mapsto> hp, ''MP/Current'' \<mapsto> mp, ''Experience'' \<mapsto> xp],
      function_attr = [''HP/Total'' \<mapsto> (\<lambda>_. tot)],
      equipment = [Item ''Sword''],
      actions_bound =
        [''Attack'' \<mapsto> \<lparr>act_scope = enemy, act_filter = onlyUndefeated, act_costs = [],
                          act_visible = True\<rparr>,
         ''Skill/Heal'' \<mapsto> \<lparr>act_scope = ally, act_filter = onlyUnhealthy,
                              act_costs = [(2, ''MP/Current'')], act_visible = True\<rparr>,
         ''Pass'' \<mapsto> \<lparr>act_scope = self, act_filter = none, act_costs = [],
                        act_visible = True\<rparr>]\<rparr>"

text \<open>
  The two-party scenario: party A is one character at full health (50 of 50), party B is
  one character at HP/Current 0 with 7 points of Experience and a potion in the party's
  inventory.
\<close>

definition scenario_game :: game where
  "scenario_game =
     \<lparr>attribute = [''parties'' \<mapsto> 2], function_attr = Map.empty,
      parties = [\<lparr>members = [mk_character 50 50 4 0], inventory = []\<rparr>,
                 \<lparr>members = [mk_character 0 50 4 7], inventory = [Item ''Potion'']\<rparr>],
      willExit = False\<rparr>"

text \<open>
  A skirmish of two undefeated parties: party 0 has a healthy, a wounded and a dead
  member, party 1 a wounded and a dead one.
\<close>

definition skirmish_game :: game where
  "skirmish_game =
     \<lparr>attribute = [''parties'' \<mapsto> 2], function_attr = Map.empty,
      parties = [\<lparr>members = [mk_character 50 50 1 0, mk_character 20 50 4 0,
                             mk_character 0 50 4 0],
                  inventory = []\<rparr>,
                 \<lparr>members = [mk_character 10 50 4 3, mk_character 0 50 4 5],
                  inventory = []\<rparr>],
      willExit = False\<rparr>"

text \<open>
  Three parties, of which only the last is defeated; party 1 is alive, has 10 points of
  Experience and owns a shield.
\<close>

definition three_party_game :: game where
  "three_party_game =
     \<lparr>attribute = [''parties'' \<mapsto> 3], function_attr = Map.empty,
      parties = [\<lparr>members = [mk_character 50 50 4 0], inventory = []\<rparr>,
                 \<lparr>members = [mk_character 30 50 4 10], inventory = [Item ''Shield'']\<rparr>,
                 \<lparr>members = [mk_character 0 50 4 7], inventory = [Item ''Potion'']\<rparr>],
      willExit = False\<rparr>"

text \<open>
  The draws of a shuffle of three elements: \<open>a\<close> at position 1 and \<open>b\<close> at position 2.
\<close>

definition two_draws :: "nat \<Rightarrow> nat \<Rightarrow> nat \<Rightarrow> nat" where
  "two_draws a b i = (if i = 1 then a else b)"

text \<open>A chooser that picks the first candidate, and the effect table of the rule set.\<close>

definition first_target :: chooser where
  "first_target g c cands = Some (take 1 cands)"

definition simple_effects :: "string \<Rightarrow> effect" where
  "simple_effects s = (if s = ''Skill/Heal'' then heal (\<lambda>s t. 12) else pass)"

text \<open>
  Two attribute objects on which a capped add does not bound what is read afterwards: in
  the first the key is also bound to a function attribute; in the second the cap is a
  function of the key's stored value.
\<close>

definition shadowed_object :: object where
  "shadowed_object =
     \<lparr>attribute = [''HP/Current'' \<mapsto> 0],
      function_attr = [''HP/Current'' \<mapsto> (\<lambda>_. 100), ''HP/Total'' \<mapsto> (\<lambda>_. 10)]\<rparr>"

definition moving_cap_object :: object where
  "moving_cap_object =
     \<lparr>attribute = [''X'' \<mapsto> 0],
      function_attr = [''Limit'' \<mapsto> (\<lambda>st. 10 - 2 * (case st ''X'' of Some v \<Rightarrow> v | None \<Rightarrow> 0))]\<rparr>"

section \<open>Properties of the phase\<close>

lemma state_loop_none:
  "\<forall>j. pi \<le> j \<and> j < length ps \<longrightarrow> \<not> defeated (ps ! j) \<Longrightarrow> state_loop ps pi = combat"
proof (induction ps pi rule: state_loop.induct)
  case (1 ps pi)
  show ?case
  proof (cases "pi < length ps")
    case True
    with "1.prems" have nd: "\<not> defeated (ps ! pi)" by simp
    from "1.prems" have "\<forall>j. Suc pi \<le> j \<and> j < length ps \<longrightarrow> \<not> defeated (ps ! j)" by simp
    with "1.IH" True nd have "state_loop ps (Suc pi) = combat" by simp
    with True nd show ?thesis by (subst state_loop.simps) simp
  next
    case False
    then show ?thesis by (subst state_loop.simps) simp
  qed
qed

lemma state_loop_first:
  "\<lbrakk>pi \<le> k; k < length ps; defeated (ps ! k);
    \<forall>j. pi \<le> j \<and> j < k \<longrightarrow> \<not> defeated (ps ! j)\<rbrakk>
   \<Longrightarrow> state_loop ps pi = (if k = length ps - 1 then victory else defeat)"
proof (induction ps pi rule: state_loop.induct)
  case (1 ps pi)
  from "1.prems" have lt: "pi < length ps" by simp
  show ?case
  proof (cases "pi = k")
    case True
    with "1.prems" lt show ?thesis
      by (subst state_loop.simps) auto
  next
    case False
    with "1.prems" have less: "pi < k" by simp
    with "1.prems" have nd: "\<not> defeated (ps ! pi)" by simp
    from "1.prems" less
    have "state_loop ps (Suc pi) = (if k = length ps - 1 then victory else defeat)"
      using "1.IH" [OF lt nd] by simp
    with lt nd show ?thesis by (subst state_loop.simps) simp
  qed
qed

text \<open>
  C1. The phase is \<open>exit\<close> when the exit flag is set; otherwise \<open>menu\<close> when exactly one
  party exists, whether or not that party is defeated; otherwise the first defeated party
  in index order decides: \<open>victory\<close> if it is the last-indexed party, \<open>defeat\<close> if it is
  any other; and \<open>combat\<close> if no party is defeated. The phase is a function of the
  game's flag and parties alone.
\<close>

theorem state_cases:
  "(willExit g \<longrightarrow> state g = exit) \<and>
   (\<not> willExit g \<and> length (parties g) = 1 \<longrightarrow> state g = menu) \<and>
   (\<not> willExit g \<and> length (parties g) \<noteq> 1 \<and> k < length (parties g) \<and>
      defeated (parties g ! k) \<and> (\<forall>j<k. \<not> defeated (parties g ! j))
      \<longrightarrow> state g = (if k = length (parties g) - 1 then victory else defeat)) \<and>
   (\<not> willExit g \<and> length (parties g) \<noteq> 1 \<and> (\<forall>j<length (parties g). \<not> defeated (parties g ! j))
      \<longrightarrow> state g = combat) \<and>
   (willExit g' = willExit g \<and> parties g' = parties g \<longrightarrow> state g' = state g)"
proof -
  have a: "willExit g \<longrightarrow> state g = exit"
    by (simp add: state_def)
  have b: "\<not> willExit g \<and> length (parties g) = 1 \<longrightarrow> state g = menu"
    by (simp add: state_def)
  have c: "\<not> willExit g \<and> length (parties g) \<noteq> 1 \<and> k < length (parties g) \<and>
      defeated (parties g ! k) \<and> (\<forall>j<k. \<not> defeated (parties g ! j))
      \<longrightarrow> state g = (if k = length (parties g) - 1 then victory else defeat)"
    using state_loop_first [of 0 k "parties g"] by (simp add: state_def)
  have d: "\<not> willExit g \<and> length (parties g) \<noteq> 1 \<and>
      (\<forall>j<length (parties g). \<not> defeated (parties g ! j)) \<longrightarrow> state g = combat"
    using state_loop_none [of 0 "parties g"] by (simp add: state_def)
  have e: "willExit g' = willExit g \<and> parties g' = parties g \<longrightarrow> state g' = state g"
    by (simp add: state_def)
  from a b c d e show ?thesis by blast
qed

theorem state_cases_witness:
  "state scenario_game = victory \<and> state (scenario_game\<lparr>willExit := True\<rparr>) = exit"
  using state_cases [of scenario_game 1 scenario_game]
    state_cases [of "scenario_game\<lparr>willExit := True\<rparr>" 0 scenario_game]
  by (simp add: scenario_game_def defeated_def alive_def get_def mk_character_def)

section \<open>Properties of the turn order\<close>

lemma length_iter_swap: "length (iter_swap xs i j) = length xs"
  by (simp add: iter_swap_def)

lemma mset_iter_swap:
  "i < length xs \<Longrightarrow> j < length xs \<Longrightarrow> mset (iter_swap xs i j) = mset xs"
  unfolding iter_swap_def by (rule mset_swap)

lemma mset_shuffle_loop: "mset (shuffle_loop rnd i xs) = mset xs"
proof (induction rnd i xs rule: shuffle_loop.induct)
  case (1 rnd i xs)
  show ?case
  proof (cases "i < length xs")
    case True
    have "rnd i mod (i + 1) < i + 1" by simp
    with True have j: "rnd i mod (i + 1) < length xs" by linarith
    from True have "mset (shuffle_loop rnd i xs)
        = mset (shuffle_loop rnd (Suc i) (iter_swap xs i (rnd i mod (i + 1))))"
      by (subst shuffle_loop.simps) simp
    also have "\<dots> = mset (iter_swap xs i (rnd i mod (i + 1)))"
      using "1.IH" True by simp
    also have "\<dots> = mset xs"
      using True j by (rule mset_iter_swap)
    finally show ?thesis .
  next
    case False
    then show ?thesis by (subst shuffle_loop.simps) simp
  qed
qed

lemma mset_random_shuffle: "mset (random_shuffle rnd xs) = mset xs"
  by (simp add: random_shuffle_def mset_shuffle_loop)

lemma set_party_refs: "set (party_refs ps pi) = {h. fst h = pi \<and> snd h < length (members (ps ! pi))}"
  by (auto simp: party_refs_def)

lemma distinct_party_refs: "distinct (party_refs ps pi)"
  by (simp add: party_refs_def distinct_map inj_on_def)

lemma set_all_refs: "set (all_refs ps) = {h. valid_ref ps h}"
  by (auto simp: all_refs_def valid_ref_def set_party_refs)

lemma distinct_concat_map:
  "\<lbrakk>distinct xs; \<And>x. distinct (f x); \<And>x y. x \<noteq> y \<Longrightarrow> set (f x) \<inter> set (f y) = {}\<rbrakk>
   \<Longrightarrow> distinct (concat (map f xs))"
proof (induction xs)
  case Nil
  then show ?case by simp
next
  case (Cons a xs)
  have h: "set (f a) \<inter> set (f y) = {}" if "y \<in> set xs" for y
  proof -
    from that Cons.prems(1) have "a \<noteq> y" by auto
    then show ?thesis by (rule Cons.prems(3))
  qed
  then have h2: "\<forall>y\<in>set xs. \<forall>x\<in>set (f a). x \<notin> set (f y)"
    by blast
  have "distinct (concat (map f xs))"
    using Cons by simp
  with h2 Cons.prems(2) show ?case by auto
qed

lemma distinct_all_refs: "distinct (all_refs ps)"
  unfolding all_refs_def
proof (rule distinct_concat_map)
  show "distinct [0..<length ps]" by simp
  show "distinct (party_refs ps x)" for x by (rule distinct_party_refs)
  show "set (party_refs ps x) \<inter> set (party_refs ps y) = {}" if "x \<noteq> y" for x y
    using that by (auto simp: set_party_refs)
qed

lemma shuffle_loop_fold:
  "shuffle_loop rnd i xs
     = fold (\<lambda>k ys. iter_swap ys k (rnd k mod (k + 1))) [i..<length xs] xs"
proof (induction rnd i xs rule: shuffle_loop.induct)
  case (1 rnd i xs)
  show ?case
  proof (cases "i < length xs")
    case True
    then have u: "[i..<length xs] = i # [Suc i..<length xs]" by (rule upt_conv_Cons)
    from True have "shuffle_loop rnd i xs
        = shuffle_loop rnd (Suc i) (iter_swap xs i (rnd i mod (i + 1)))"
      by (subst shuffle_loop.simps) simp
    also have "\<dots> = fold (\<lambda>k ys. iter_swap ys k (rnd k mod (k + 1)))
        [Suc i..<length xs] (iter_swap xs i (rnd i mod (i + 1)))"
      using "1.IH" [OF True] by (simp add: length_iter_swap)
    finally show ?thesis by (simp add: u)
  next
    case False
    then show ?thesis by (subst shuffle_loop.simps) simp
  qed
qed

lemma random_shuffle_upto: "random_shuffle rnd xs = shuffle_upto rnd (length xs) xs"
  by (simp add: random_shuffle_def shuffle_upto_def shuffle_loop_fold)

lemma shuffle_upto_0: "shuffle_upto rnd 0 xs = xs"
  by (simp add: shuffle_upto_def)

lemma shuffle_upto_1: "shuffle_upto rnd (Suc 0) xs = xs"
  by (simp add: shuffle_upto_def)

lemma shuffle_upto_Suc:
  "1 \<le> m \<Longrightarrow> shuffle_upto rnd (Suc m) xs
     = iter_swap (shuffle_upto rnd m xs) m (rnd m mod (m + 1))"
  by (simp add: shuffle_upto_def)

lemma length_shuffle_upto: "length (shuffle_upto rnd m xs) = length xs"
proof (induction m)
  case 0
  show ?case by (simp add: shuffle_upto_0)
next
  case (Suc m)
  show ?case
  proof (cases "m = 0")
    case True
    then show ?thesis by (simp add: shuffle_upto_1)
  next
    case False
    with Suc show ?thesis by (simp add: shuffle_upto_Suc length_iter_swap)
  qed
qed

lemma draw_le: "(rnd :: nat \<Rightarrow> nat) m mod (m + 1) \<le> m"
proof -
  have "rnd m mod (m + 1) < m + 1" by simp
  then show ?thesis by linarith
qed

lemma mset_shuffle_upto: "m \<le> length xs \<Longrightarrow> mset (shuffle_upto rnd m xs) = mset xs"
proof (induction m)
  case 0
  show ?case by (simp add: shuffle_upto_0)
next
  case (Suc m)
  show ?case
  proof (cases "m = 0")
    case True
    then show ?thesis by (simp add: shuffle_upto_1)
  next
    case False
    from Suc.prems have m: "m < length (shuffle_upto rnd m xs)"
      by (simp add: length_shuffle_upto)
    with draw_le [of rnd m] have j: "rnd m mod (m + 1) < length (shuffle_upto rnd m xs)"
      by linarith
    from False have "mset (shuffle_upto rnd (Suc m) xs)
        = mset (iter_swap (shuffle_upto rnd m xs) m (rnd m mod (m + 1)))"
      by (simp add: shuffle_upto_Suc)
    also have "\<dots> = mset (shuffle_upto rnd m xs)"
      using m j by (rule mset_iter_swap)
    also have "\<dots> = mset xs" using Suc by simp
    finally show ?thesis .
  qed
qed

lemma shuffle_upto_untouched:
  "m \<le> k \<Longrightarrow> k < length xs \<Longrightarrow> shuffle_upto rnd m xs ! k = xs ! k"
proof (induction m)
  case 0
  show ?case by (simp add: shuffle_upto_0)
next
  case (Suc m)
  show ?case
  proof (cases "m = 0")
    case True
    then show ?thesis by (simp add: shuffle_upto_1)
  next
    case False
    from Suc.prems have km: "k \<noteq> m" by simp
    from Suc.prems draw_le [of rnd m] have kj: "k \<noteq> rnd m mod (m + 1)" by linarith
    from Suc have "shuffle_upto rnd m xs ! k = xs ! k" by simp
    with False km kj show ?thesis
      by (simp add: shuffle_upto_Suc iter_swap_def)
  qed
qed

lemma shuffle_upto_cong:
  "(\<And>k. 1 \<le> k \<Longrightarrow> k < m \<Longrightarrow> rnd k mod (k + 1) = rnd' k mod (k + 1))
   \<Longrightarrow> shuffle_upto rnd m xs = shuffle_upto rnd' m xs"
proof (induction m)
  case 0
  show ?case by (simp add: shuffle_upto_0)
next
  case (Suc m)
  show ?case
  proof (cases "m = 0")
    case True
    then show ?thesis by (simp add: shuffle_upto_1)
  next
    case False
    then have d: "rnd m mod (m + 1) = rnd' m mod (m + 1)" using Suc.prems [of m] by simp
    have "shuffle_upto rnd m xs = shuffle_upto rnd' m xs"
      using Suc.prems by (intro Suc.IH) simp_all
    with False d show ?thesis by (simp add: shuffle_upto_Suc)
  qed
qed

lemma iter_swap_nth_right: "j < length ys \<Longrightarrow> iter_swap ys i j ! j = ys ! i"
  by (simp add: iter_swap_def)

lemma iter_swap_nth_left: "i < length ys \<Longrightarrow> j < length ys \<Longrightarrow> iter_swap ys i j ! i = ys ! j"
  by (cases "i = j") (simp_all add: iter_swap_def)

lemma iter_swap_nth_other: "k \<noteq> i \<Longrightarrow> k \<noteq> j \<Longrightarrow> iter_swap ys i j ! k = ys ! k"
  by (simp add: iter_swap_def)

lemma iter_swap_twice:
  assumes "i < length ys" and "j < length ys"
  shows "iter_swap (iter_swap ys i j) i j = ys"
proof (rule nth_equalityI)
  show "length (iter_swap (iter_swap ys i j) i j) = length ys"
    by (simp add: length_iter_swap)
next
  fix k assume "k < length (iter_swap (iter_swap ys i j) i j)"
  then have k: "k < length ys" by (simp add: length_iter_swap)
  let ?zs = "iter_swap ys i j"
  from assms have l: "i < length ?zs" "j < length ?zs" by (simp_all add: length_iter_swap)
  show "iter_swap ?zs i j ! k = ys ! k"
  proof (cases "k = j")
    case True
    with l assms show ?thesis by (simp add: iter_swap_nth_right iter_swap_nth_left)
  next
    case nj: False
    show ?thesis
    proof (cases "k = i")
      case True
      with l assms show ?thesis by (simp add: iter_swap_nth_right iter_swap_nth_left)
    next
      case False
      with nj show ?thesis by (simp add: iter_swap_nth_other)
    qed
  qed
qed


lemma shuffle_upto_draws:
  assumes d: "distinct xs"
  shows "m \<le> length xs \<Longrightarrow> shuffle_upto rnd m xs = shuffle_upto rnd' m xs
    \<Longrightarrow> 1 \<le> k \<Longrightarrow> k < m \<Longrightarrow> rnd k mod (k + 1) = rnd' k mod (k + 1)"
proof (induction m)
  case 0
  then show ?case by simp
next
  case (Suc m)
  show ?case
  proof (cases "m = 0")
    case True
    with Suc.prems show ?thesis by simp
  next
    case False
    let ?ys = "shuffle_upto rnd m xs" and ?ys' = "shuffle_upto rnd' m xs"
    let ?j = "rnd m mod (m + 1)" and ?j' = "rnd' m mod (m + 1)"
    let ?zs = "shuffle_upto rnd (Suc m) xs"
    from Suc.prems(1) have m: "m < length xs" by simp
    then have lm: "m < length ?ys" "m < length ?ys'" by (simp_all add: length_shuffle_upto)
    have lj: "?j < length ?ys" "?j' < length ?ys'"
      unfolding length_shuffle_upto
      using m draw_le [of rnd m] draw_le [of rnd' m] by linarith+
    from False have z: "?zs = iter_swap ?ys m ?j" and z': "?zs = iter_swap ?ys' m ?j'"
      using Suc.prems(2) by (simp_all add: shuffle_upto_Suc)
    from m have u: "?ys ! m = xs ! m" "?ys' ! m = xs ! m"
      by (simp_all add: shuffle_upto_untouched)
    from lj(1) u(1) have a: "?zs ! ?j = xs ! m"
      unfolding z by (simp add: iter_swap_nth_right)
    from lj(2) u(2) have b: "?zs ! ?j' = xs ! m"
      unfolding z' by (simp add: iter_swap_nth_right)
    from Suc.prems(1) have "mset ?zs = mset xs" by (rule mset_shuffle_upto)
    with d have dz: "distinct ?zs" by (metis mset_eq_imp_distinct_iff)
    from lj have lz: "?j < length ?zs" "?j' < length ?zs"
      by (simp_all add: length_shuffle_upto)
    from a b have "?zs ! ?j = ?zs ! ?j'" by simp
    with nth_eq_iff_index_eq [OF dz lz] have jj: "?j = ?j'" by blast
    have "?ys = iter_swap ?zs m ?j"
      unfolding z using lm(1) lj(1) by (simp add: iter_swap_twice)
    also have "\<dots> = iter_swap (iter_swap ?ys' m ?j') m ?j'"
      unfolding jj using z' by simp
    also have "\<dots> = ?ys'" using lm(2) lj(2) by (rule iter_swap_twice)
    finally have e: "?ys = ?ys'" .
    show ?thesis
    proof (cases "k = m")
      case True
      with jj show ?thesis by simp
    next
      case nk: False
      with Suc.prems(4) have "k < m" by simp
      with Suc.IH e Suc.prems(1) Suc.prems(3) show ?thesis by simp
    qed
  qed
qed

lemma shuffle_upto_reaches:
  assumes d: "distinct xs"
  shows "m \<le> length xs \<Longrightarrow> mset ys = mset xs
    \<Longrightarrow> (\<And>k. m \<le> k \<Longrightarrow> k < length xs \<Longrightarrow> ys ! k = xs ! k)
    \<Longrightarrow> \<exists>rnd. shuffle_upto rnd m xs = ys"
proof (induction m arbitrary: ys)
  case 0
  from "0.prems"(2) have "length ys = length xs" by (rule mset_eq_length)
  with "0.prems"(3) have "ys = xs" by (simp add: nth_equalityI)
  then show ?case by (simp add: shuffle_upto_0)
next
  case (Suc m)
  from Suc.prems(1) have m: "m < length xs" by simp
  from Suc.prems(2) have len: "length ys = length xs" by (rule mset_eq_length)
  from Suc.prems(2) d have dy: "distinct ys" by (metis mset_eq_imp_distinct_iff)
  from Suc.prems(2) have "set ys = set xs" by (rule mset_eq_setD)
  with m have "xs ! m \<in> set ys" by simp
  then obtain j where j: "j < length ys" "ys ! j = xs ! m"
    by (auto simp: in_set_conv_nth)
  have jm: "j \<le> m"
  proof (rule ccontr)
    assume n: "\<not> j \<le> m"
    then have "Suc m \<le> j" by simp
    with Suc.prems(3) j len have "xs ! j = xs ! m" by simp
    with d j len m have "j = m" by (simp add: nth_eq_iff_index_eq)
    with n show False by simp
  qed
  let ?ys' = "iter_swap ys m j"
  from m len have my: "m < length ys" by simp
  have ms: "mset ?ys' = mset xs"
    using mset_iter_swap [OF my j(1)] Suc.prems(2) by simp
  have ag: "?ys' ! k = xs ! k" if "m \<le> k" "k < length xs" for k
  proof (cases "k = m")
    case True
    with my j show ?thesis by (simp add: iter_swap_nth_left)
  next
    case False
    with that jm have "k \<noteq> j" "Suc m \<le> k" by simp_all
    with False that Suc.prems(3) show ?thesis by (simp add: iter_swap_nth_other)
  qed
  from Suc.IH [of ?ys'] m ms ag obtain rnd where r: "shuffle_upto rnd m xs = ?ys'"
    by auto
  have undo: "iter_swap ?ys' m j = ys" using my j(1) by (rule iter_swap_twice)
  show ?case
  proof (cases "m = 0")
    case True
    with jm have "j = 0" by simp
    with True r have "shuffle_upto rnd 0 xs = iter_swap ys 0 0" by simp
    then have "xs = ys" by (simp add: shuffle_upto_0 iter_swap_def)
    then have "shuffle_upto rnd (Suc m) xs = ys" using True by (simp add: shuffle_upto_1)
    then show ?thesis by blast
  next
    case False
    let ?rnd = "rnd(m := j)"
    have "shuffle_upto ?rnd m xs = shuffle_upto rnd m xs"
      by (rule shuffle_upto_cong) simp
    with r have "shuffle_upto ?rnd m xs = ?ys'" by simp
    moreover from jm have "?rnd m mod (m + 1) = j" by simp
    ultimately have "shuffle_upto ?rnd (Suc m) xs = iter_swap ?ys' m j"
      using False by (simp add: shuffle_upto_Suc)
    with undo have "shuffle_upto ?rnd (Suc m) xs = ys" by simp
    then show ?thesis by blast
  qed
qed

lemma random_shuffle_reaches:
  assumes "distinct xs" and "mset ys = mset xs"
  shows "\<exists>rnd. random_shuffle rnd xs = ys"
  unfolding random_shuffle_upto
  using assms by (intro shuffle_upto_reaches) simp_all

lemma random_shuffle_draws:
  assumes "distinct xs" and "random_shuffle rnd xs = random_shuffle rnd' xs"
    and "1 \<le> k" and "k < length xs"
  shows "rnd k mod (k + 1) = rnd' k mod (k + 1)"
  using assms unfolding random_shuffle_upto
  by (intro shuffle_upto_draws [of xs "length xs" rnd rnd']) simp_all

lemma random_shuffle_cong:
  assumes "\<And>k. 1 \<le> k \<Longrightarrow> k < length xs \<Longrightarrow> rnd k mod (k + 1) = rnd' k mod (k + 1)"
  shows "random_shuffle rnd xs = random_shuffle rnd' xs"
  unfolding random_shuffle_upto using assms by (rule shuffle_upto_cong)

text \<open>
  C5. The turn order holds exactly the characters of all parties that are able, each
  once: it is a permutation of the able characters taken in party order. The next
  character is its first element. It is computed from the parties and the random draws
  alone, so nothing of an earlier call persists. The shuffle reaches every order of the
  able characters, and two sequences of draws give the same order exactly when they agree
  at every position \<open>k\<close> of the loop after the reduction modulo \<open>k + 1\<close> that the loop
  applies: the orders and the reduced sequences of draws correspond one to one, so that
  draws each uniform over its range give every order equally often.
\<close>

theorem turnOrder_permutation:
  "mset (turnOrder rnd g)
     = mset (filter (\<lambda>cha. able (character_at (parties g) cha)) (all_refs (parties g))) \<and>
   set (turnOrder rnd g)
     = {cha. valid_ref (parties g) cha \<and> able (character_at (parties g) cha)} \<and>
   distinct (turnOrder rnd g) \<and>
   nextCharacter rnd g = (if turnOrder rnd g = [] then None else Some (turnOrder rnd g ! 0)) \<and>
   (parties g' = parties g \<longrightarrow> turnOrder rnd g' = turnOrder rnd g) \<and>
   (\<forall>ys. mset ys
           = mset (filter (\<lambda>cha. able (character_at (parties g) cha)) (all_refs (parties g)))
         \<longrightarrow> (\<exists>rnd. turnOrder rnd g = ys)) \<and>
   (turnOrder rnd g = turnOrder rnd' g \<longleftrightarrow>
      (\<forall>k. 1 \<le> k \<and> k < length (turnOrder rnd g) \<longrightarrow> rnd k mod (k + 1) = rnd' k mod (k + 1)))"
proof -
  let ?fc = "filter (\<lambda>cha. able (character_at (parties g) cha)) (all_refs (parties g))"
  have t: "turnOrder r g = random_shuffle r ?fc" for r
    by (simp add: turnOrder_def)
  have m: "mset (turnOrder rnd g) = mset ?fc"
    by (simp add: turnOrder_def mset_random_shuffle)
  have s: "set (turnOrder rnd g)
     = {cha. valid_ref (parties g) cha \<and> able (character_at (parties g) cha)}"
    using mset_eq_setD [OF m] by (auto simp: set_all_refs)
  have dfc: "distinct ?fc" by (simp add: distinct_all_refs)
  with m have d: "distinct (turnOrder rnd g)"
    by (metis mset_eq_imp_distinct_iff)
  have n: "nextCharacter rnd g
      = (if turnOrder rnd g = [] then None else Some (turnOrder rnd g ! 0))"
    by (cases "turnOrder rnd g") (simp_all add: nextCharacter_def)
  have f: "parties g' = parties g \<longrightarrow> turnOrder rnd g' = turnOrder rnd g"
    by (simp add: turnOrder_def)
  have all: "\<forall>ys. mset ys = mset ?fc \<longrightarrow> (\<exists>rnd. turnOrder rnd g = ys)"
    unfolding t using dfc by (blast intro: random_shuffle_reaches)
  from m have len: "length (turnOrder rnd g) = length ?fc" by (rule mset_eq_length)
  have one: "turnOrder rnd g = turnOrder rnd' g \<longleftrightarrow>
      (\<forall>k. 1 \<le> k \<and> k < length (turnOrder rnd g) \<longrightarrow> rnd k mod (k + 1) = rnd' k mod (k + 1))"
    unfolding len
  proof
    assume "turnOrder rnd g = turnOrder rnd' g"
    then have e: "random_shuffle rnd ?fc = random_shuffle rnd' ?fc" by (simp add: t)
    show "\<forall>k. 1 \<le> k \<and> k < length ?fc \<longrightarrow> rnd k mod (k + 1) = rnd' k mod (k + 1)"
      using random_shuffle_draws [OF dfc e] by blast
  next
    assume "\<forall>k. 1 \<le> k \<and> k < length ?fc \<longrightarrow> rnd k mod (k + 1) = rnd' k mod (k + 1)"
    then have "random_shuffle rnd ?fc = random_shuffle rnd' ?fc"
      by (intro random_shuffle_cong) blast
    then show "turnOrder rnd g = turnOrder rnd' g" by (simp add: t)
  qed
  from m s d n f all one show ?thesis by (intro conjI)
qed

theorem turnOrder_permutation_witness:
  "set (turnOrder (\<lambda>i. 7 * i + 3) scenario_game) = {(0, 0)} \<and>
   nextCharacter (\<lambda>i. 7 * i + 3) scenario_game = Some (0, 0) \<and>
   map (\<lambda>(a, b). turnOrder (two_draws a b) skirmish_game)
       [(0, 0), (0, 1), (0, 2), (1, 0), (1, 1), (1, 2)]
     = [[(1, 0), (0, 0), (0, 1)], [(0, 1), (1, 0), (0, 0)], [(0, 1), (0, 0), (1, 0)],
        [(1, 0), (0, 1), (0, 0)], [(0, 0), (1, 0), (0, 1)], [(0, 0), (0, 1), (1, 0)]] \<and>
   (\<exists>rnd. turnOrder rnd skirmish_game = [(1, 0), (0, 1), (0, 0)]) \<and>
   turnOrder (two_draws 0 0) skirmish_game \<noteq> turnOrder (two_draws 1 0) skirmish_game \<and>
   turnOrder (two_draws 2 3) skirmish_game = turnOrder (two_draws 0 0) skirmish_game"
proof -
  have v: "{cha. valid_ref (parties scenario_game) cha \<and>
        able (character_at (parties scenario_game) cha)} = {(0, 0)}"
    by (auto simp: valid_ref_def scenario_game_def able_def alive_def get_def
        mk_character_def character_at_def less_Suc_eq nth_Cons')
  from turnOrder_permutation [of "\<lambda>i. 7 * i + 3" scenario_game scenario_game] v
  have s: "set (turnOrder (\<lambda>i. 7 * i + 3) scenario_game) = {(0, 0)}"
    and n: "nextCharacter (\<lambda>i. 7 * i + 3) scenario_game
      = (if turnOrder (\<lambda>i. 7 * i + 3) scenario_game = [] then None
         else Some (turnOrder (\<lambda>i. 7 * i + 3) scenario_game ! 0))"
    by simp_all
  have ne: "turnOrder (\<lambda>i. 7 * i + 3) scenario_game \<noteq> []"
  proof
    assume "turnOrder (\<lambda>i. 7 * i + 3) scenario_game = []"
    then have "set (turnOrder (\<lambda>i. 7 * i + 3) scenario_game) = {}" by simp
    with s show False by simp
  qed
  then have "turnOrder (\<lambda>i. 7 * i + 3) scenario_game ! 0
      \<in> set (turnOrder (\<lambda>i. 7 * i + 3) scenario_game)"
    by simp
  then have "turnOrder (\<lambda>i. 7 * i + 3) scenario_game ! 0 = (0, 0)"
    unfolding s by simp
  with n ne have nx: "nextCharacter (\<lambda>i. 7 * i + 3) scenario_game = Some (0, 0)"
    by simp
  have six: "map (\<lambda>(a, b). turnOrder (two_draws a b) skirmish_game)
       [(0, 0), (0, 1), (0, 2), (1, 0), (1, 1), (1, 2)]
     = [[(1, 0), (0, 0), (0, 1)], [(0, 1), (1, 0), (0, 0)], [(0, 1), (0, 0), (1, 0)],
        [(1, 0), (0, 1), (0, 0)], [(0, 0), (1, 0), (0, 1)], [(0, 0), (0, 1), (1, 0)]]"
    by code_simp
  have fc: "filter (\<lambda>cha. able (character_at (parties skirmish_game) cha))
      (all_refs (parties skirmish_game)) = [(0, 0), (0, 1), (1, 0)]"
    by code_simp
  have len: "length (turnOrder (two_draws 0 0) skirmish_game) = 3"
    and len': "length (turnOrder (two_draws 2 3) skirmish_game) = 3"
    by code_simp+
  note skirmish = turnOrder_permutation [of _ skirmish_game skirmish_game]
  have "mset [(1, 0), (0, 1), (0, 0)] = mset [(0::nat, 0::nat), (0, 1), (1, 0)]"
    by simp
  with skirmish [of "two_draws 0 0" "two_draws 0 0"] fc
  have ex: "\<exists>rnd. turnOrder rnd skirmish_game = [(1, 0), (0, 1), (0, 0)]"
    by simp
  have "two_draws 0 0 1 mod (1 + 1) \<noteq> two_draws 1 0 1 mod (1 + 1)"
    by (simp add: two_draws_def)
  then have "\<not> (\<forall>k. 1 \<le> k \<and> k < 3 \<longrightarrow>
      two_draws 0 0 k mod (k + 1) = two_draws 1 0 k mod (k + 1))"
    by (intro notI) (drule spec [of _ 1], simp)
  with skirmish [of "two_draws 0 0" "two_draws 1 0"] len
  have diff: "turnOrder (two_draws 0 0) skirmish_game \<noteq> turnOrder (two_draws 1 0) skirmish_game"
    by simp
  have "\<forall>k. 1 \<le> k \<and> k < 3 \<longrightarrow> two_draws 2 3 k mod (k + 1) = two_draws 0 0 k mod (k + 1)"
  proof (intro allI impI)
    fix k :: nat assume "1 \<le> k \<and> k < 3"
    then have k: "k = 1 \<or> k = 2" by auto
    have a1: "two_draws 2 3 1 mod (1 + 1) = two_draws 0 0 1 mod (1 + 1)"
      by code_simp
    have a2: "two_draws 2 3 2 mod (2 + 1) = two_draws 0 0 2 mod (2 + 1)"
      by code_simp
    from k show "two_draws 2 3 k mod (k + 1) = two_draws 0 0 k mod (k + 1)"
    proof
      assume "k = 1"
      with a1 show ?thesis by (simp only:)
    next
      assume "k = 2"
      with a2 show ?thesis by (simp only:)
    qed
  qed
  with skirmish [of "two_draws 2 3" "two_draws 0 0"] len'
  have same: "turnOrder (two_draws 2 3) skirmish_game = turnOrder (two_draws 0 0) skirmish_game"
    by simp
  from s nx six ex diff same show ?thesis by (intro conjI)
qed

text \<open>
  C9. If some character of some party is able, \<open>nextCharacter\<close> returns a character of
  the match that is able. If no character is able, the turn order is empty and
  \<open>nextCharacter\<close> has no value: its read of element 0 is out of bounds.
\<close>
theorem nextCharacter_defined:
  "((\<exists>cha. valid_ref (parties g) cha \<and> able (character_at (parties g) cha)) \<longrightarrow>
      (\<exists>c. nextCharacter rnd g = Some c \<and> valid_ref (parties g) c \<and>
           able (character_at (parties g) c))) \<and>
   (\<not> (\<exists>cha. valid_ref (parties g) cha \<and> able (character_at (parties g) cha)) \<longrightarrow>
      turnOrder rnd g = [] \<and> nextCharacter rnd g = None)"
proof -
  have m: "mset (turnOrder rnd g)
      = mset (filter (\<lambda>cha. able (character_at (parties g) cha)) (all_refs (parties g)))"
    by (simp add: turnOrder_def mset_random_shuffle)
  have s: "set (turnOrder rnd g)
     = {cha. valid_ref (parties g) cha \<and> able (character_at (parties g) cha)}"
    using mset_eq_setD [OF m] by (auto simp: set_all_refs)
  show ?thesis
  proof (cases "turnOrder rnd g")
    case Nil
    with s show ?thesis by (auto simp: nextCharacter_def)
  next
    case (Cons c cs)
    then have "c \<in> set (turnOrder rnd g)" by simp
    with s have va: "valid_ref (parties g) c \<and> able (character_at (parties g) c)" by simp
    from Cons have "nextCharacter rnd g = Some c" by (simp add: nextCharacter_def)
    with va show ?thesis by blast
  qed
qed

theorem nextCharacter_defined_witness:
  "(\<exists>c. nextCharacter (\<lambda>i. i) scenario_game = Some c \<and> valid_ref (parties scenario_game) c)
   \<and> nextCharacter (\<lambda>i. i) (scenario_game\<lparr>parties := [\<lparr>members = [mk_character 0 50 4 7], inventory = []\<rparr>]\<rparr>) = None"
proof -
  have a: "valid_ref (parties scenario_game) (0, 0) \<and>
      able (character_at (parties scenario_game) (0, 0))"
    by (simp add: valid_ref_def scenario_game_def able_def alive_def get_def
        mk_character_def character_at_def)
  let ?g = "scenario_game\<lparr>parties := [\<lparr>members = [mk_character 0 50 4 7], inventory = []\<rparr>]\<rparr>"
  have b: "\<not> (\<exists>cha. valid_ref (parties ?g) cha \<and> able (character_at (parties ?g) cha))"
    by (auto simp: valid_ref_def able_def alive_def get_def
        mk_character_def character_at_def)
  have ex: "\<exists>cha. valid_ref (parties scenario_game) cha \<and>
      able (character_at (parties scenario_game) cha)"
    using a by (rule exI)
  have "\<exists>c. nextCharacter (\<lambda>i. i) scenario_game = Some c \<and>
      valid_ref (parties scenario_game) c \<and> able (character_at (parties scenario_game) c)"
    using nextCharacter_defined [of scenario_game "\<lambda>i. i", THEN conjunct1] ex by (rule mp)
  then obtain c where "nextCharacter (\<lambda>i. i) scenario_game = Some c"
    and "valid_ref (parties scenario_game) c"
    by (elim exE conjE)
  then have one: "\<exists>c. nextCharacter (\<lambda>i. i) scenario_game = Some c \<and>
      valid_ref (parties scenario_game) c"
    by (intro exI conjI)
  have "turnOrder (\<lambda>i. i) ?g = [] \<and> nextCharacter (\<lambda>i. i) ?g = None"
    using nextCharacter_defined [of ?g "\<lambda>i. i", THEN conjunct2] b by (rule mp)
  then have two: "nextCharacter (\<lambda>i. i) ?g = None" by (rule conjunct2)
  from one two show ?thesis by (rule conjI)
qed

section \<open>Properties of target resolution\<close>

lemma list_ex_party_refs:
  "list_ex (\<lambda>ca. ca = c) (party_refs ps pi) = (fst c = pi \<and> snd c < length (members (ps ! pi)))"
  by (auto simp: list_ex_iff set_party_refs)

lemma partyOf_valid: "valid_ref ps c \<Longrightarrow> partyOf ps c = fst c"
proof -
  assume v: "valid_ref ps c"
  let ?P = "\<lambda>pi. list_ex (\<lambda>ca. ca = c) (party_refs ps pi)"
  have "find ?P [0..<length ps] = Some (fst c)"
    unfolding find_Some_iff
  proof (intro exI [of _ "fst c"] conjI allI impI)
    show "fst c < length [0..<length ps]" using v by (simp add: valid_ref_def)
    show "?P ([0..<length ps] ! fst c)"
      using v by (simp add: valid_ref_def list_ex_party_refs)
    show "fst c = [0..<length ps] ! fst c" using v by (simp add: valid_ref_def)
    show "\<not> ?P ([0..<length ps] ! j)" if "j < fst c" for j
      using that v by (simp add: valid_ref_def list_ex_party_refs)
  qed
  then show ?thesis by (simp add: partyOf_def)
qed

lemma set_others:
  "set (concat (map (\<lambda>pi. if pi \<noteq> p then party_refs ps pi else []) [0..<length ps]))
     = {h. valid_ref ps h \<and> fst h \<noteq> p}"
  by (auto simp: valid_ref_def set_party_refs split: if_splits)

lemma distinct_others:
  "distinct (concat (map (\<lambda>pi. if pi \<noteq> p then party_refs ps pi else []) [0..<length ps]))"
proof (rule distinct_concat_map)
  show "distinct [0..<length ps]" by simp
  show "distinct (if x \<noteq> p then party_refs ps x else [])" for x
    by (simp add: distinct_party_refs)
  show "set (if x \<noteq> p then party_refs ps x else []) \<inter> set (if y \<noteq> p then party_refs ps y else []) = {}"
    if "x \<noteq> y" for x y
    using that by (auto simp: set_party_refs)
qed

lemma set_own: "p < length ps \<Longrightarrow> set (party_refs ps p) = {h. valid_ref ps h \<and> fst h = p}"
  by (auto simp: valid_ref_def set_party_refs)

lemma candidates_valid:
  assumes v: "valid_ref ps c"
  shows "\<exists>cands. candidates ps c sc = Inr cands \<and> distinct cands \<and>
     set cands =
       (case sc of
          self \<Rightarrow> {c}
        | ally \<Rightarrow> {h. valid_ref ps h \<and> fst h = fst c}
        | party \<Rightarrow> {h. valid_ref ps h \<and> fst h = fst c}
        | enemy \<Rightarrow> {h. valid_ref ps h \<and> fst h \<noteq> fst c}
        | enemies \<Rightarrow> {h. valid_ref ps h \<and> fst h \<noteq> fst c}
        | everyone \<Rightarrow> {h. valid_ref ps h})"
proof -
  from v have p: "partyOf ps c = fst c" by (rule partyOf_valid)
  from v have lt: "fst c < length ps" by (simp add: valid_ref_def)
  show ?thesis
  proof (cases sc)
    case self
    then show ?thesis by (simp add: candidates_def)
  next
    case ally
    with p lt show ?thesis by (simp add: candidates_def set_own distinct_party_refs)
  next
    case party
    with p lt show ?thesis by (simp add: candidates_def set_own distinct_party_refs)
  next
    case enemy
    with p set_others [of "fst c" ps] distinct_others [of "fst c" ps]
    show ?thesis by (simp add: candidates_def)
  next
    case enemies
    with p set_others [of "fst c" ps] distinct_others [of "fst c" ps]
    show ?thesis by (simp add: candidates_def)
  next
    case everyone
    then show ?thesis by (simp add: candidates_def set_all_refs distinct_all_refs)
  qed
qed

lemma not_defeated_iff: "(\<not> defeated p) = (\<exists>m\<in>set (members p). 0 < get m ''HP/Current'')"
  by (simp add: defeated_def alive_def list_all_iff)

lemma filter_undefeated_others:
  assumes "\<forall>pi<length ps. pi \<noteq> p \<longrightarrow> defeated (ps ! pi)"
    and "set cands = {h. valid_ref ps h \<and> fst h \<noteq> p}"
  shows "filterCandidates ps onlyUndefeated cands = []"
proof -
  have "\<not> keeps ps onlyUndefeated h" if "h \<in> set cands" for h
    using that assms by (simp add: keeps_def character_defeated_def valid_ref_def)
  then show ?thesis by (simp add: filterCandidates_def filter_empty_conv)
qed

text \<open>
  C2. For an actor \<open>c\<close> of the match and an action \<open>s\<close> bound to it, the candidates are
  determined by the scope: \<open>self\<close> gives \<open>c\<close> alone; \<open>ally\<close> and \<open>party\<close> give the
  members of \<open>c\<close>'s own party; \<open>enemy\<close> and \<open>enemies\<close> give the members of every other
  party; \<open>everyone\<close> gives every character of the match; each candidate once. When the
  filtered candidates are not empty, the scopes \<open>self\<close>, \<open>party\<close>, \<open>enemies\<close> and
  \<open>everyone\<close> return all of them, whatever the chooser is, and only \<open>ally\<close> and
  \<open>enemy\<close> return what the interactive chooser makes of them.
\<close>

theorem resolveTargets_by_scope:
  assumes v: "valid_ref (parties g) c"
    and a: "actions_bound (character_at (parties g) c) s = Some a"
  shows "\<exists>cands. candidates (parties g) c (act_scope a) = Inr cands \<and> distinct cands \<and>
     set cands =
       (case act_scope a of
          self \<Rightarrow> {c}
        | ally \<Rightarrow> {h. valid_ref (parties g) h \<and> fst h = fst c}
        | party \<Rightarrow> {h. valid_ref (parties g) h \<and> fst h = fst c}
        | enemy \<Rightarrow> {h. valid_ref (parties g) h \<and> fst h \<noteq> fst c}
        | enemies \<Rightarrow> {h. valid_ref (parties g) h \<and> fst h \<noteq> fst c}
        | everyone \<Rightarrow> {h. valid_ref (parties g) h}) \<and>
     (filterCandidates (parties g) (act_filter a) cands \<noteq> [] \<longrightarrow>
        resolveTargets query g c s =
          (case act_scope a of
             ally \<Rightarrow> Inr (query g c (filterCandidates (parties g) (act_filter a) cands))
           | enemy \<Rightarrow> Inr (query g c (filterCandidates (parties g) (act_filter a) cands))
           | _ \<Rightarrow> Inr (Some (filterCandidates (parties g) (act_filter a) cands))))"
proof -
  from candidates_valid [OF v, of "act_scope a"]
  obtain cands where c: "candidates (parties g) c (act_scope a) = Inr cands"
    and d: "distinct cands"
    and s: "set cands =
       (case act_scope a of
          self \<Rightarrow> {c}
        | ally \<Rightarrow> {h. valid_ref (parties g) h \<and> fst h = fst c}
        | party \<Rightarrow> {h. valid_ref (parties g) h \<and> fst h = fst c}
        | enemy \<Rightarrow> {h. valid_ref (parties g) h \<and> fst h \<noteq> fst c}
        | enemies \<Rightarrow> {h. valid_ref (parties g) h \<and> fst h \<noteq> fst c}
        | everyone \<Rightarrow> {h. valid_ref (parties g) h})"
    by (elim exE conjE)
  have r: "filterCandidates (parties g) (act_filter a) cands \<noteq> [] \<longrightarrow>
        resolveTargets query g c s =
          (case act_scope a of
             ally \<Rightarrow> Inr (query g c (filterCandidates (parties g) (act_filter a) cands))
           | enemy \<Rightarrow> Inr (query g c (filterCandidates (parties g) (act_filter a) cands))
           | _ \<Rightarrow> Inr (Some (filterCandidates (parties g) (act_filter a) cands)))"
    using v a c by (cases "act_scope a") (simp_all add: resolveTargets_def)
  from c d s r show ?thesis by (intro exI conjI)
qed

theorem resolveTargets_by_scope_witness:
  "resolveTargets first_target skirmish_game (0, 0) ''Attack'' = Inr (Some [(1, 0)]) \<and>
   resolveTargets first_target skirmish_game (1, 0) ''Pass'' = Inr (Some [(1, 0)])"
proof -
  have v: "valid_ref (parties skirmish_game) (0, 0)" by code_simp
  have a: "actions_bound (character_at (parties skirmish_game) (0, 0)) ''Attack''
      = Some \<lparr>act_scope = enemy, act_filter = onlyUndefeated, act_costs = [],
               act_visible = True\<rparr>"
    by code_simp
  have c: "candidates (parties skirmish_game) (0, 0) enemy = Inr [(1, 0), (1, 1)]"
    by code_simp
  have f: "filterCandidates (parties skirmish_game) onlyUndefeated [(1, 0), (1, 1)]
      = [(1, 0), (1, 1)]"
    by code_simp
  from resolveTargets_by_scope [OF v a, of first_target] c f
  have one: "resolveTargets first_target skirmish_game (0, 0) ''Attack'' = Inr (Some [(1, 0)])"
    by (simp add: first_target_def)
  have v': "valid_ref (parties skirmish_game) (1, 0)" by code_simp
  have a': "actions_bound (character_at (parties skirmish_game) (1, 0)) ''Pass''
      = Some \<lparr>act_scope = self, act_filter = none, act_costs = [], act_visible = True\<rparr>"
    by code_simp
  have c': "candidates (parties skirmish_game) (1, 0) self = Inr [(1, 0)]"
    by code_simp
  have f': "filterCandidates (parties skirmish_game) none [(1, 0)] = [(1, 0)]"
    by code_simp
  from resolveTargets_by_scope [OF v' a', of first_target] c' f'
  have two: "resolveTargets first_target skirmish_game (1, 0) ''Pass'' = Inr (Some [(1, 0)])"
    by simp
  from one two show ?thesis by (rule conjI)
qed

text \<open>
  C3. The filter keeps, in order, exactly these candidates: \<open>none\<close> all of them;
  \<open>onlyHealthy\<close> those with HP/Current equal to HP/Total; \<open>onlyAlive\<close> those that are
  alive (HP/Current above 0); \<open>onlyUnhealthy\<close> those alive with HP/Current below
  HP/Total; \<open>onlyDead\<close> those not alive; \<open>onlyUndefeated\<close> those whose party is not
  defeated, that is, has some member alive. The last is a predicate of the party: two
  candidates of one party are kept or dropped together.
\<close>

theorem filterCandidates_keeps:
  "filterCandidates ps f cands =
     filter (\<lambda>cha. case f of
         none \<Rightarrow> True
       | onlyHealthy \<Rightarrow>
           get (character_at ps cha) ''HP/Current'' = get (character_at ps cha) ''HP/Total''
       | onlyAlive \<Rightarrow> 0 < get (character_at ps cha) ''HP/Current''
       | onlyUnhealthy \<Rightarrow>
           0 < get (character_at ps cha) ''HP/Current'' \<and>
           get (character_at ps cha) ''HP/Current'' < get (character_at ps cha) ''HP/Total''
       | onlyDead \<Rightarrow> \<not> 0 < get (character_at ps cha) ''HP/Current''
       | onlyUndefeated \<Rightarrow> \<exists>m\<in>set (members (ps ! fst cha)). 0 < get m ''HP/Current'') cands \<and>
   (fst cha = fst cha' \<longrightarrow> keeps ps onlyUndefeated cha = keeps ps onlyUndefeated cha')"
proof -
  have k: "keeps ps f = (\<lambda>cha. case f of
         none \<Rightarrow> True
       | onlyHealthy \<Rightarrow>
           get (character_at ps cha) ''HP/Current'' = get (character_at ps cha) ''HP/Total''
       | onlyAlive \<Rightarrow> 0 < get (character_at ps cha) ''HP/Current''
       | onlyUnhealthy \<Rightarrow>
           0 < get (character_at ps cha) ''HP/Current'' \<and>
           get (character_at ps cha) ''HP/Current'' < get (character_at ps cha) ''HP/Total''
       | onlyDead \<Rightarrow> \<not> 0 < get (character_at ps cha) ''HP/Current''
       | onlyUndefeated \<Rightarrow> \<exists>m\<in>set (members (ps ! fst cha)). 0 < get m ''HP/Current'')"
    by (rule ext)
      (simp add: keeps_def alive_def character_defeated_def not_defeated_iff
        split: filter_kind.split)
  have one: "filterCandidates ps f cands = filter (keeps ps f) cands"
    by (simp add: filterCandidates_def keeps_def)
  have two: "fst cha = fst cha' \<longrightarrow> keeps ps onlyUndefeated cha = keeps ps onlyUndefeated cha'"
    by (simp add: keeps_def character_defeated_def)
  from one two show ?thesis unfolding k by (rule conjI)
qed

theorem filterCandidates_keeps_witness:
  "filterCandidates (parties skirmish_game) onlyUndefeated (all_refs (parties skirmish_game))
     = [(0, 0), (0, 1), (0, 2), (1, 0), (1, 1)] \<and>
   filterCandidates (parties skirmish_game) onlyUnhealthy (all_refs (parties skirmish_game))
     = [(0, 1), (1, 0)] \<and>
   filterCandidates (parties scenario_game) onlyUndefeated (all_refs (parties scenario_game))
     = [(0, 0)]"
proof -
  have one: "filter (\<lambda>cha. \<exists>m\<in>set (members (parties skirmish_game ! fst cha)).
        0 < get m ''HP/Current'') (all_refs (parties skirmish_game))
      = [(0, 0), (0, 1), (0, 2), (1, 0), (1, 1)]"
    by code_simp
  have two: "filter (\<lambda>cha. 0 < get (character_at (parties skirmish_game) cha) ''HP/Current'' \<and>
        get (character_at (parties skirmish_game) cha) ''HP/Current''
          < get (character_at (parties skirmish_game) cha) ''HP/Total'')
        (all_refs (parties skirmish_game))
      = [(0, 1), (1, 0)]"
    by code_simp
  have three: "filter (\<lambda>cha. \<exists>m\<in>set (members (parties scenario_game ! fst cha)).
        0 < get m ''HP/Current'') (all_refs (parties scenario_game))
      = [(0, 0)]"
    by code_simp
  from filterCandidates_keeps [of "parties skirmish_game" onlyUndefeated
      "all_refs (parties skirmish_game)"] one
  have a: "filterCandidates (parties skirmish_game) onlyUndefeated
      (all_refs (parties skirmish_game)) = [(0, 0), (0, 1), (0, 2), (1, 0), (1, 1)]"
    by simp
  from filterCandidates_keeps [of "parties skirmish_game" onlyUnhealthy
      "all_refs (parties skirmish_game)"] two
  have b: "filterCandidates (parties skirmish_game) onlyUnhealthy
      (all_refs (parties skirmish_game)) = [(0, 1), (1, 0)]"
    by simp
  from filterCandidates_keeps [of "parties scenario_game" onlyUndefeated
      "all_refs (parties scenario_game)"] three
  have c: "filterCandidates (parties scenario_game) onlyUndefeated
      (all_refs (parties scenario_game)) = [(0, 0)]"
    by simp
  from a b c show ?thesis by (intro conjI)
qed

text \<open>
  C4. When the filtered candidates are empty, target resolution returns no target set,
  whatever the chooser is; the menu loop then goes on with the next answer of the
  interaction on the unchanged game, without invoking the action and without ending. In
  particular an action of scope \<open>enemy\<close> and filter \<open>onlyUndefeated\<close> resolves to no
  target set when every party other than the actor's is defeated.
\<close>

theorem resolveTargets_no_eligible:
  "(valid_ref (parties g) c \<and> actions_bound (character_at (parties g) c) s = Some a \<and>
    candidates (parties g) c (act_scope a) = Inr cands \<and>
    filterCandidates (parties g) (act_filter a) cands = []
      \<longrightarrow> resolveTargets query g c s = Inr None) \<and>
   (resolveTargets query g c s = Inr None \<and> s \<noteq> ''Cancel'' \<and> acts s = None
      \<longrightarrow> resolve E acts c ((s, query) # script) g = resolve E acts c script g) \<and>
   (valid_ref (parties g) c \<and> actions_bound (character_at (parties g) c) s = Some a \<and>
    act_scope a = enemy \<and> act_filter a = onlyUndefeated \<and>
    (\<forall>pi<length (parties g). pi \<noteq> fst c \<longrightarrow> defeated (parties g ! pi))
      \<longrightarrow> resolveTargets query g c s = Inr None)"
proof -
  have one: "valid_ref (parties g) c \<and> actions_bound (character_at (parties g) c) s = Some a \<and>
    candidates (parties g) c (act_scope a) = Inr cands \<and>
    filterCandidates (parties g) (act_filter a) cands = []
      \<longrightarrow> resolveTargets query g c s = Inr None"
    by (simp add: resolveTargets_def)
  have two: "resolveTargets query g c s = Inr None \<and> s \<noteq> ''Cancel'' \<and> acts s = None
      \<longrightarrow> resolve E acts c ((s, query) # script) g = resolve E acts c script g"
    by simp
  have three: "resolveTargets query g c s = Inr None"
    if v: "valid_ref (parties g) c"
      and a: "actions_bound (character_at (parties g) c) s = Some a"
      and sc: "act_scope a = enemy" and f: "act_filter a = onlyUndefeated"
      and d: "\<forall>pi<length (parties g). pi \<noteq> fst c \<longrightarrow> defeated (parties g ! pi)"
  proof -
    from candidates_valid [OF v, of enemy]
    obtain cands where c: "candidates (parties g) c enemy = Inr cands"
      and s: "set cands = {h. valid_ref (parties g) h \<and> fst h \<noteq> fst c}"
      by auto
    from d s have "filterCandidates (parties g) onlyUndefeated cands = []"
      by (rule filter_undefeated_others)
    with v a sc f c show ?thesis by (simp add: resolveTargets_def)
  qed
  from one two three show ?thesis by blast
qed

theorem resolveTargets_no_eligible_witness:
  "resolveTargets first_target scenario_game (0, 0) ''Attack'' = Inr None \<and>
   resolve simple_effects (actions (\<lambda>n. \<lparr>members = [], inventory = []\<rparr>) scenario_game (0, 0))
     (0, 0) [(''Attack'', first_target), (''Quit/Yes'', first_target)] scenario_game
     = Some (Inr ''Quit.'', scenario_game\<lparr>willExit := True\<rparr>)"
proof -
  let ?acts = "actions (\<lambda>n. \<lparr>members = [], inventory = []\<rparr>) scenario_game (0, 0)"
  have v: "valid_ref (parties scenario_game) (0, 0)" by code_simp
  have a: "actions_bound (character_at (parties scenario_game) (0, 0)) ''Attack''
      = Some \<lparr>act_scope = enemy, act_filter = onlyUndefeated, act_costs = [],
               act_visible = True\<rparr>"
    by code_simp
  have d: "\<forall>pi<length (parties scenario_game). pi \<noteq> fst (0::nat, 0::nat) \<longrightarrow>
      defeated (parties scenario_game ! pi)"
    by (simp add: scenario_game_def less_Suc_eq defeated_def alive_def get_def
        mk_character_def)
  note inst = resolveTargets_no_eligible [of scenario_game "(0, 0)" "''Attack''"
      "\<lparr>act_scope = enemy, act_filter = onlyUndefeated, act_costs = [], act_visible = True\<rparr>"
      "[]" first_target ?acts simple_effects "[(''Quit/Yes'', first_target)]"]
  from inst v a d
  have one: "resolveTargets first_target scenario_game (0, 0) ''Attack'' = Inr None"
    by simp
  have n: "?acts ''Attack'' = None"
    by (simp add: actions_def base_actions_def Let_def split: state.split)
  have q: "?acts ''Quit/Yes'' = Some quit"
    by (simp add: actions_def base_actions_def useAI_def partyOf_valid [OF v] Let_def
        split: state.split)
  from inst one n
  have "resolve simple_effects ?acts (0, 0)
      [(''Attack'', first_target), (''Quit/Yes'', first_target)] scenario_game
    = resolve simple_effects ?acts (0, 0) [(''Quit/Yes'', first_target)] scenario_game"
    by simp
  also have "\<dots> = Some (Inr ''Quit.'', scenario_game\<lparr>willExit := True\<rparr>)"
    by (simp add: q quit_def)
  finally show ?thesis using one by simp
qed

section \<open>Properties of victory\<close>

lemma foldl_loot:
  "foldl loot (its, x) cs
     = (its @ concat (map equipment cs), x + sum_list (map (\<lambda>c. get c ''Experience'') cs))"
  by (induction cs arbitrary: its x) (simp_all add: loot_def)

lemma long_div_size_nonneg:
  assumes "0 \<le> x" and "x < 2 ^ 63" and "0 < n"
  shows "long_div_size x n = x div int n"
proof -
  from assms have u: "to_unsigned x = x" by (simp add: to_unsigned_def)
  from assms have lo: "0 \<le> x div int n" by (simp add: pos_imp_zdiv_nonneg_iff)
  from assms have "x div int n \<le> x" using zdiv_mono2 [of x 1 "int n"] by simp
  with assms have hi: "x div int n < 2 ^ 63" by linarith
  from lo hi have "(x div int n) mod 2 ^ 64 = x div int n" by simp
  with hi have "to_long (x div int n) = x div int n" by (simp add: to_long_def)
  with u show ?thesis by (simp add: long_div_size_def)
qed

lemma victory_two_parties:
  assumes st: "state g = victory" and two: "length (parties g) = 2"
  shows "defeated (parties g ! 1) \<and> \<not> defeated (parties g ! 0)"
proof -
  from st have ne: "\<not> willExit g" by (auto simp: state_def split: if_splits)
  with st two have l: "state_loop (parties g) 0 = victory" by (simp add: state_def)
  have nd: "\<not> defeated (parties g ! 0)"
  proof
    assume "defeated (parties g ! 0)"
    with two have "state_loop (parties g) 0 = defeat"
      by (subst state_loop.simps) simp
    with l show False by simp
  qed
  have "defeated (parties g ! 1)"
  proof (rule ccontr)
    assume n1: "\<not> defeated (parties g ! 1)"
    have "state_loop (parties g) 0 = combat"
    proof (rule state_loop_none, intro allI impI)
      fix j assume "0 \<le> j \<and> j < length (parties g)"
      with two have "j = 0 \<or> j = 1" by auto
      with nd n1 show "\<not> defeated (parties g ! j)" by auto
    qed
    with l show False by simp
  qed
  with nd show ?thesis by simp
qed

lemma stored_add: "stored (add c k x) k = stored c k + x"
  by (simp add: add_def stored_def)

text \<open>
  C6, as amended. In the victory state of a game of exactly two parties, where the
  defeated party is party 1 and its characters' Experience sums to a value from 0 up to
  below \<open>2^63\<close>, \<open>doVictory\<close> appends party 1's inventory and then the equipment of every
  character of party 1 to party 0's inventory, adds to the stored Experience of every
  member of party 0 the sum divided by the size of party 0, but at least 1, and removes
  party 1, so that party 0 alone remains.
\<close>

theorem doVictory_two_parties:
  assumes st: "state g = victory" and two: "length (parties g) = 2"
    and lo: "0 \<le> sum_list (map (\<lambda>c. get c ''Experience'') (members (parties g ! 1)))"
    and hi: "sum_list (map (\<lambda>c. get c ''Experience'') (members (parties g ! 1))) < 2 ^ 63"
  shows "let p = parties g ! 0; d = parties g ! 1;
             total = sum_list (map (\<lambda>c. get c ''Experience'') (members d));
             xp = max 1 (total div int (length (members p)))
         in defeated d \<and> \<not> defeated p \<and>
            doVictory g =
              (Inr ''The player party was victorious!'',
               g\<lparr>parties :=
                   [p\<lparr>members := map (\<lambda>c. add c ''Experience'' xp) (members p),
                      inventory := inventory p @ inventory d @ concat (map equipment (members d))\<rparr>]\<rparr>) \<and>
            (\<forall>c\<in>set (members p).
               stored (add c ''Experience'' xp) ''Experience'' = stored c ''Experience'' + xp)"
proof -
  define p where "p = parties g ! 0"
  define d where "d = parties g ! 1"
  define total where "total = sum_list (map (\<lambda>c. get c ''Experience'') (members d))"
  define xp where "xp = max 1 (total div int (length (members p)))"
  from victory_two_parties [OF st two] have dd: "defeated d" and nd: "\<not> defeated p"
    by (simp_all add: p_def d_def)
  from nd have ne: "members p \<noteq> []" by (auto simp: defeated_def)
  then have n: "0 < length (members p)" by simp
  from two have ps: "parties g = [p, d]"
    by (cases "parties g"; simp add: p_def d_def; case_tac list; simp)
  from lo hi have t: "0 \<le> total" "total < 2 ^ 63" by (simp_all add: total_def d_def)
  with n have q: "long_div_size total (length (members p)) = total div int (length (members p))"
    by (simp add: long_div_size_nonneg)
  from t n have "0 \<le> total div int (length (members p))"
    by (simp add: pos_imp_zdiv_nonneg_iff)
  with q have r: "(if long_div_size total (length (members p)) = 0 then 1
      else long_div_size total (length (members p))) = xp"
    by (simp add: xp_def max_def)
  have acc: "foldl loot (inventory p @ inventory d, 0) (members d)
      = (inventory p @ inventory d @ concat (map equipment (members d)), total)"
    by (simp add: foldl_loot total_def)
  have dv: "doVictory g =
      (Inr ''The player party was victorious!'',
       g\<lparr>parties :=
           [p\<lparr>members := map (\<lambda>c. add c ''Experience'' xp) (members p),
              inventory := inventory p @ inventory d @ concat (map equipment (members d))\<rparr>]\<rparr>)"
    using ne by (simp add: doVictory_def ps acc base_doVictory_def Let_def r)
  have s: "\<forall>c\<in>set (members p).
      stored (add c ''Experience'' xp) ''Experience'' = stored c ''Experience'' + xp"
    by (simp add: stored_add)
  from dd nd dv s show ?thesis
    unfolding Let_def p_def [symmetric] d_def [symmetric] total_def [symmetric] xp_def [symmetric]
    by (intro conjI)
qed

theorem doVictory_two_parties_witness:
  "state scenario_game = victory \<and> length (parties scenario_game) = 2 \<and>
   length (parties (snd (doVictory scenario_game))) = 1 \<and>
   map inventory (parties (snd (doVictory scenario_game))) = [[Item ''Potion'', Item ''Sword'']] \<and>
   map (\<lambda>c. stored c ''Experience'') (members (parties (snd (doVictory scenario_game)) ! 0))
     = [0 + max 1 7]"
proof -
  have st: "state scenario_game = victory" by code_simp
  have two: "length (parties scenario_game) = 2" by code_simp
  have t: "sum_list (map (\<lambda>c. get c ''Experience'') (members (parties scenario_game ! 1))) = 7"
    by code_simp
  have n: "length (members (parties scenario_game ! 0)) = 1" by code_simp
  have q: "max 1 ((7::int) div int 1) = 7" by simp
  have i: "inventory (parties scenario_game ! 0) @ inventory (parties scenario_game ! 1) @
      concat (map equipment (members (parties scenario_game ! 1)))
      = [Item ''Potion'', Item ''Sword'']"
    by code_simp
  have m: "members (parties scenario_game ! 0) = [mk_character 50 50 4 0]"
    by (simp add: scenario_game_def)
  have s: "stored (mk_character 50 50 4 0) ''Experience'' = 0"
    by (simp add: stored_def mk_character_def)
  from t have lo: "0 \<le> sum_list (map (\<lambda>c. get c ''Experience'') (members (parties scenario_game ! 1)))"
    and hi: "sum_list (map (\<lambda>c. get c ''Experience'') (members (parties scenario_game ! 1))) < 2 ^ 63"
    by simp_all
  from doVictory_two_parties [OF st two lo hi]
  have "doVictory scenario_game =
      (Inr ''The player party was victorious!'',
       scenario_game\<lparr>parties :=
           [(parties scenario_game ! 0)
              \<lparr>members := map (\<lambda>c. add c ''Experience'' 7) (members (parties scenario_game ! 0)),
               inventory := [Item ''Potion'', Item ''Sword'']\<rparr>]\<rparr>)"
    unfolding Let_def t n q i by simp
  then have "length (parties (snd (doVictory scenario_game))) = 1"
    and "map inventory (parties (snd (doVictory scenario_game)))
      = [[Item ''Potion'', Item ''Sword'']]"
    and "map (\<lambda>c. stored c ''Experience'') (members (parties (snd (doVictory scenario_game)) ! 0))
      = [0 + max 1 7]"
    using s by (simp_all add: stored_add m)
  with st two show ?thesis by (intro conjI)
qed

text \<open>
  C6 as stated fails for more than two parties: with three parties of which only the last
  is defeated the phase is \<open>victory\<close> too, and \<open>doVictory\<close> loots and removes party 1,
  which is not defeated; the defeated party stays.
\<close>

theorem doVictory_three_parties_counterexample:
  "state three_party_game = victory \<and>
   \<not> defeated (parties three_party_game ! 1) \<and>
   map defeated (parties (snd (doVictory three_party_game))) = [False, True] \<and>
   map inventory (parties (snd (doVictory three_party_game)))
     = [[Item ''Shield'', Item ''Sword''], [Item ''Potion'']]"
  by code_simp

section \<open>Properties of invocation and of the capped add\<close>

lemma character_at_update_same:
  "valid_ref ps c \<Longrightarrow> character_at (update_character ps c ch) c = ch"
  by (simp add: valid_ref_def character_at_def update_character_def)

lemma character_at_update_other:
  "valid_ref ps h \<Longrightarrow> h \<noteq> c \<Longrightarrow> character_at (update_character ps c ch) h = character_at ps h"
  by (cases "fst h = fst c")
    (auto simp: valid_ref_def character_at_def update_character_def prod_eq_iff)

lemma stored_add_other: "k' \<noteq> k \<Longrightarrow> stored (add ob k x) k' = stored ob k'"
  by (simp add: add_def stored_def)

lemma stored_fold_add:
  "stored (fold (\<lambda>cost ob. add ob (snd cost) (- fst cost)) costs ob) k
     = stored ob k - sum_list (map fst (filter (\<lambda>cost. snd cost = k) costs))"
proof (induction costs arbitrary: ob)
  case Nil
  then show ?case by simp
next
  case (Cons cost costs)
  show ?case
  proof (cases "snd cost = k")
    case True
    with Cons show ?thesis by (simp add: stored_add)
  next
    case False
    with Cons show ?thesis by (simp add: stored_add_other)
  qed
qed

lemma clamp_upper: "clamp v lo hi \<le> hi"
  by (simp add: clamp_def)

lemma get_stored: "function_attr ob k = None \<Longrightarrow> get ob k = stored ob k"
  by (simp add: get_def stored_def)

lemma stored_add_capped:
  "stored (add_capped ob k capKey delta) k = clamp (stored ob k + delta) 0 (get ob capKey)"
  by (simp add: add_capped_def stored_def)

text \<open>
  C7. For an actor of the match and an action bound to it: if some cost of the action is
  not affordable (the actor's value for the cost's attribute is below the amount), the
  invocation signals \<open>InsufficientResource\<close> and returns the game as it was, whatever the
  effect function is; if every cost is affordable, the costs are deducted from the
  actor's stored attributes, no other character is changed by the payment, and the effect
  function is called on the parties so paid, with the actor as the only source.
\<close>

theorem invoke_checks_costs:
  assumes v: "valid_ref (parties g) c"
    and a: "actions_bound (character_at (parties g) c) s = Some a"
  shows "(\<not> (\<forall>cost\<in>set (act_costs a). fst cost \<le> get (character_at (parties g) c) (snd cost))
           \<longrightarrow> invoke E g c s targets = (Inl InsufficientResource, g)) \<and>
         ((\<forall>cost\<in>set (act_costs a). fst cost \<le> get (character_at (parties g) c) (snd cost))
           \<longrightarrow> (\<exists>paid. invoke E g c s targets
                    = (Inr (fst (E s [c] targets paid)), g\<lparr>parties := snd (E s [c] targets paid)\<rparr>) \<and>
                  (\<forall>k. stored (character_at paid c) k
                        = stored (character_at (parties g) c) k
                          - sum_list (map fst (filter (\<lambda>cost. snd cost = k) (act_costs a)))) \<and>
                  (\<forall>h. valid_ref (parties g) h \<and> h \<noteq> c
                        \<longrightarrow> character_at paid h = character_at (parties g) h)))"
proof -
  let ?ch = "character_at (parties g) c"
  have aff: "list_all (affordable ?ch) (act_costs a)
      = (\<forall>cost\<in>set (act_costs a). fst cost \<le> get ?ch (snd cost))"
    by (simp add: list_all_iff affordable_def)
  have no: "\<not> (\<forall>cost\<in>set (act_costs a). fst cost \<le> get ?ch (snd cost))
      \<longrightarrow> invoke E g c s targets = (Inl InsufficientResource, g)"
    using v a by (simp add: invoke_def aff [symmetric])
  let ?paid = "update_character (parties g) c (deduct ?ch (act_costs a))"
  have yes: "(\<forall>cost\<in>set (act_costs a). fst cost \<le> get ?ch (snd cost))
      \<longrightarrow> invoke E g c s targets
            = (Inr (fst (E s [c] targets ?paid)), g\<lparr>parties := snd (E s [c] targets ?paid)\<rparr>)"
    using v a by (simp add: invoke_def aff [symmetric] split: prod.split)
  have st: "\<forall>k. stored (character_at ?paid c) k
      = stored ?ch k - sum_list (map fst (filter (\<lambda>cost. snd cost = k) (act_costs a)))"
    using v by (simp add: character_at_update_same deduct_def stored_fold_add)
  have ot: "\<forall>h. valid_ref (parties g) h \<and> h \<noteq> c \<longrightarrow> character_at ?paid h = character_at (parties g) h"
    by (simp add: character_at_update_other)
  from no yes st ot show ?thesis by blast
qed

theorem invoke_checks_costs_witness:
  "invoke simple_effects skirmish_game (0, 0) ''Skill/Heal'' [(0, 1)]
     = (Inl InsufficientResource, skirmish_game) \<and>
   fst (invoke simple_effects skirmish_game (0, 1) ''Skill/Heal'' [(0, 1)]) = Inr [] \<and>
   map (\<lambda>c. (stored c ''MP/Current'', stored c ''HP/Current''))
     (members (parties (snd (invoke simple_effects skirmish_game (0, 1) ''Skill/Heal'' [(0, 1)])) ! 0))
     = [(1, 50), (0, 32), (4, 0)]"
proof -
  have v0: "valid_ref (parties skirmish_game) (0, 0)" by code_simp
  have a0: "actions_bound (character_at (parties skirmish_game) (0, 0)) ''Skill/Heal''
      = Some \<lparr>act_scope = ally, act_filter = onlyUnhealthy,
               act_costs = [(2, ''MP/Current'')], act_visible = True\<rparr>"
    by code_simp
  have n0: "get (character_at (parties skirmish_game) (0, 0)) ''MP/Current'' = 1" by code_simp
  from invoke_checks_costs [OF v0 a0, of simple_effects "[(0, 1)]"] n0
  have one: "invoke simple_effects skirmish_game (0, 0) ''Skill/Heal'' [(0, 1)]
     = (Inl InsufficientResource, skirmish_game)"
    by simp
  have v1: "valid_ref (parties skirmish_game) (0, 1)" by code_simp
  have a1: "actions_bound (character_at (parties skirmish_game) (0, 1)) ''Skill/Heal''
      = Some \<lparr>act_scope = ally, act_filter = onlyUnhealthy,
               act_costs = [(2, ''MP/Current'')], act_visible = True\<rparr>"
    by code_simp
  have n1: "get (character_at (parties skirmish_game) (0, 1)) ''MP/Current'' = 4" by code_simp
  from invoke_checks_costs [OF v1 a1, of simple_effects "[(0, 1)]"] n1
  obtain paid where "invoke simple_effects skirmish_game (0, 1) ''Skill/Heal'' [(0, 1)]
      = (Inr (fst (simple_effects ''Skill/Heal'' [(0, 1)] [(0, 1)] paid)),
         skirmish_game\<lparr>parties := snd (simple_effects ''Skill/Heal'' [(0, 1)] [(0, 1)] paid)\<rparr>)"
    by auto
  then have two: "fst (invoke simple_effects skirmish_game (0, 1) ''Skill/Heal'' [(0, 1)]) = Inr []"
    by (simp add: simple_effects_def heal_def)
  have three: "map (\<lambda>c. (stored c ''MP/Current'', stored c ''HP/Current''))
     (members (parties (snd (invoke simple_effects skirmish_game (0, 1) ''Skill/Heal'' [(0, 1)])) ! 0))
     = [(1, 50), (0, 32), (4, 0)]"
    by code_simp
  from one two three show ?thesis by (intro conjI)
qed

text \<open>
  C8, as amended. The capped add sets the stored value of the key to
  \<open>clamp (stored + delta) 0 (get capKey)\<close>. When no function attribute is bound to the
  key, so that \<open>get\<close> reads the stored value, the value read afterwards does not exceed
  the cap that the add read; it does not exceed the cap read afterwards either when the
  update leaves the cap's value as it was.
\<close>

theorem add_capped_clamps:
  "stored (add_capped ob k capKey delta) k = clamp (stored ob k + delta) 0 (get ob capKey) \<and>
   (0 \<le> get ob capKey \<longrightarrow>
      clamp (stored ob k + delta) 0 (get ob capKey)
        = (if stored ob k + delta < 0 then 0
           else if get ob capKey < stored ob k + delta then get ob capKey
           else stored ob k + delta)) \<and>
   (function_attr ob k = None \<longrightarrow> get (add_capped ob k capKey delta) k \<le> get ob capKey) \<and>
   (function_attr ob k = None \<and> get (add_capped ob k capKey delta) capKey = get ob capKey \<longrightarrow>
      get (add_capped ob k capKey delta) k \<le> get (add_capped ob k capKey delta) capKey)"
proof -
  have f: "function_attr (add_capped ob k capKey delta) = function_attr ob"
    by (simp add: add_capped_def)
  have one: "stored (add_capped ob k capKey delta) k
      = clamp (stored ob k + delta) 0 (get ob capKey)"
    by (rule stored_add_capped)
  have two: "0 \<le> get ob capKey \<longrightarrow>
      clamp (stored ob k + delta) 0 (get ob capKey)
        = (if stored ob k + delta < 0 then 0
           else if get ob capKey < stored ob k + delta then get ob capKey
           else stored ob k + delta)"
    by (simp add: clamp_def)
  have three: "function_attr ob k = None \<longrightarrow> get (add_capped ob k capKey delta) k \<le> get ob capKey"
  proof
    assume n: "function_attr ob k = None"
    with f have "get (add_capped ob k capKey delta) k = stored (add_capped ob k capKey delta) k"
      by (simp add: get_stored)
    with one show "get (add_capped ob k capKey delta) k \<le> get ob capKey"
      by (simp add: clamp_upper)
  qed
  from one two three show ?thesis by simp
qed

theorem add_capped_clamps_witness:
  "get (add_capped (mk_character 45 50 4 0) ''HP/Current'' ''HP/Total'' 12) ''HP/Current'' = 50 \<and>
   get (add_capped (mk_character 45 50 4 0) ''HP/Current'' ''HP/Total'' 12) ''HP/Total'' = 50 \<and>
   get (add_capped (mk_character 45 50 4 0) ''HP/Current'' ''HP/Total'' 12) ''HP/Current''
     \<le> get (add_capped (mk_character 45 50 4 0) ''HP/Current'' ''HP/Total'' 12) ''HP/Total''"
proof -
  let ?ob = "mk_character 45 50 4 0"
  let ?ob' = "add_capped ?ob ''HP/Current'' ''HP/Total'' 12"
  have n: "function_attr ?ob ''HP/Current'' = None" by (simp add: mk_character_def)
  have t: "get ?ob ''HP/Total'' = 50" by code_simp
  have t': "get ?ob' ''HP/Total'' = 50" by code_simp
  have c: "get ?ob' ''HP/Current'' = 50" by code_simp
  from add_capped_clamps [of ?ob "''HP/Current''" "''HP/Total''" 12] n t t'
  have "get ?ob' ''HP/Current'' \<le> get ?ob' ''HP/Total''" by simp
  with c t' show ?thesis by (intro conjI)
qed

text \<open>
  C8 as stated fails for some objects: where the key is shadowed by a function attribute,
  or the cap is a function of the key's stored value, the value read after a capped add
  with a positive delta exceeds the cap read after it.
\<close>

theorem add_capped_counterexample:
  "get (add_capped shadowed_object ''HP/Current'' ''HP/Total'' 1) ''HP/Current'' = 100 \<and>
   get (add_capped shadowed_object ''HP/Current'' ''HP/Total'' 1) ''HP/Total'' = 10 \<and>
   get (add_capped moving_cap_object ''X'' ''Limit'' 5) ''X'' = 5 \<and>
   get (add_capped moving_cap_object ''X'' ''Limit'' 5) ''Limit'' = 0"
  by code_simp

section \<open>The exit flag\<close>

lemma willExit_generateParties: "willExit (generateParties gen g) = willExit g"
proof (induction gen g rule: generateParties.induct)
  case (1 gen g)
  show ?case
  proof (cases "int (length (parties g)) < to_unsigned (get g ''parties'')")
    case True
    with "1.IH" show ?thesis by (subst generateParties.simps) simp
  next
    case False
    then show ?thesis by (subst generateParties.simps) simp
  qed
qed

lemma willExit_invoke: "willExit (snd (invoke E g c s targets)) = willExit g"
  by (simp add: invoke_def split: option.split prod.split)

lemma willExit_base_doVictory: "willExit (snd (base_doVictory g)) = willExit g"
  by (simp add: base_doVictory_def)

lemma willExit_doVictory: "willExit (snd (doVictory g)) = willExit g"
  by (simp add: doVictory_def Let_def willExit_base_doVictory)

lemma keeps_exit_actions:
  "actions gen g0 c0 s = Some h \<Longrightarrow> willExit g \<Longrightarrow> willExit (snd (snd (h c g)))"
  by (auto simp: actions_def base_actions_def Let_def quit_def ignore_def inspect_def
      fight_def willExit_generateParties split: if_splits state.splits)

lemma willExit_resolve:
  assumes acts: "\<And>s h c g. acts s = Some h \<Longrightarrow> willExit g \<Longrightarrow> willExit (snd (snd (h c g)))"
  shows "resolve E acts c script g = Some (res, g') \<Longrightarrow> willExit g \<Longrightarrow> willExit g'"
proof (induction script arbitrary: g)
  case Nil
  then show ?case by simp
next
  case (Cons answer script)
  obtain s query where answer: "answer = (s, query)" by (cases answer) auto
  note run = Cons.prems(1) [unfolded answer]
  show ?case
  proof (cases "s = ''Cancel''")
    case True
    with run have "resolve E acts c script g = Some (res, g')" by simp
    with Cons.IH Cons.prems(2) show ?thesis by blast
  next
    case nc: False
    show ?thesis
    proof (cases "acts s")
      case (Some h)
      obtain r b g1 where h: "h c g = (r, b, g1)" by (cases "h c g") auto
      from acts [OF Some Cons.prems(2), of c] h have w1: "willExit g1" by simp
      show ?thesis
      proof (cases b)
        case True
        with run nc Some h have "resolve E acts c script g1 = Some (res, g')"
          by simp
        with Cons.IH w1 show ?thesis by blast
      next
        case False
        with run nc Some h have "g' = g1" by simp
        with w1 show ?thesis by simp
      qed
    next
      case None
      show ?thesis
      proof (cases "resolveTargets query g c s")
        case (Inl e)
        with run nc None Cons.prems(2) show ?thesis by simp
      next
        case (Inr ts)
        show ?thesis
        proof (cases ts)
          case N: None
          with run nc None Inr have "resolve E acts c script g = Some (res, g')"
            by simp
          with Cons.IH Cons.prems(2) show ?thesis by blast
        next
          case (Some targets)
          show ?thesis
          proof (cases "length targets < 1")
            case True
            with run nc None Inr Some
            have "resolve E acts c script g = Some (res, g')" by simp
            with Cons.IH Cons.prems(2) show ?thesis by blast
          next
            case False
            with run nc None Inr Some
            have "invoke E g c s targets = (res, g')" by simp
            then have "g' = snd (invoke E g c s targets)" by simp
            with Cons.prems(2) show ?thesis by (simp add: willExit_invoke)
          qed
        qed
      qed
    qed
  qed
qed

lemma willExit_step: "step g g' \<Longrightarrow> willExit g \<Longrightarrow> willExit g'"
proof (induction rule: step.induct)
  case (step_quit c g r b g')
  then show ?case by (auto simp: quit_def)
next
  case (step_ignore c g r b g')
  then show ?case by (auto simp: ignore_def)
next
  case (step_inspect c g r b g')
  then show ?case by (auto simp: inspect_def)
next
  case (step_fight gen c g r b g')
  then show ?case by (auto simp: fight_def willExit_generateParties)
next
  case (step_generateParties gen g g')
  then show ?case by (auto simp: willExit_generateParties)
next
  case (step_invoke E g c s targets res g')
  then have "g' = snd (invoke E g c s targets)" by simp
  with step_invoke show ?case by (simp add: willExit_invoke)
next
  case (step_doMenuAction rnd gen E script g res g')
  show ?case
  proof (cases "nextCharacter rnd g")
    case None
    with step_doMenuAction show ?thesis by (simp add: doMenuAction_def)
  next
    case (Some c)
    with step_doMenuAction have "resolve E (actions gen g c) c script g = Some (res, g')"
      by (simp add: doMenuAction_def)
    then show ?thesis using step_doMenuAction.prems
      by (rule willExit_resolve [rotated]) (rule keeps_exit_actions)
  qed
next
  case (step_doVictory g res g')
  then have "g' = snd (doVictory g)" by simp
  with step_doVictory show ?case by (simp add: willExit_doVictory)
next
  case (step_base_doVictory g res g')
  then have "g' = snd (base_doVictory g)" by simp
  with step_base_doVictory show ?case by (simp add: willExit_base_doVictory)
next
  case (step_doDefeat g res g')
  then show ?case by (auto simp: doDefeat_def)
next
  case (step_run_command action command g description g')
  then show ?case by (auto simp: run_command_def split: option.splits prod.splits)
qed

text \<open>
  C10. The quit handler sets the exit flag, and the phase is then \<open>exit\<close>. Once the flag
  is set, after any sequence of operations of the game object the flag is still set and
  the phase is still \<open>exit\<close>, whatever the parties are: no operation clears the flag.
\<close>

theorem exit_absorbing:
  "(quit c g = (r, b, g1) \<longrightarrow> willExit g1 \<and> state g1 = exit) \<and>
   (willExit g \<and> step\<^sup>*\<^sup>* g g' \<longrightarrow> willExit g' \<and> state g' = exit)"
proof -
  have one: "quit c g = (r, b, g1) \<longrightarrow> willExit g1 \<and> state g1 = exit"
    by (auto simp: quit_def state_def)
  have two: "willExit g'" if "step\<^sup>*\<^sup>* g g'" and "willExit g"
    using that by (induction rule: rtranclp_induct) (auto intro: willExit_step)
  then have "willExit g \<and> step\<^sup>*\<^sup>* g g' \<longrightarrow> willExit g' \<and> state g' = exit"
    by (auto simp: state_def)
  with one show ?thesis by (rule conjI)
qed


theorem exit_absorbing_witness:
  "willExit (snd (snd (quit (0, 0) scenario_game))) \<and>
   state (snd (doVictory (snd (snd (quit (0, 0) scenario_game))))) = exit"
proof -
  let ?g1 = "scenario_game\<lparr>willExit := True\<rparr>"
  let ?g2 = "snd (doVictory ?g1)"
  have q: "quit (0, 0) scenario_game = (''Quit.'', False, ?g1)" by (simp add: quit_def)
  from exit_absorbing [of "(0, 0)" scenario_game "''Quit.''" False ?g1] q
  have w: "willExit ?g1" by simp
  have "doVictory ?g1 = (fst (doVictory ?g1), ?g2)" by simp
  then have "step ?g1 ?g2" by (rule step_doVictory)
  then have "step\<^sup>*\<^sup>* ?g1 ?g2" by (rule r_into_rtranclp)
  with exit_absorbing [of "(0, 0)" ?g1 "''Quit.''" False ?g1 ?g2] w
  have "state ?g2 = exit" by simp
  with w q show ?thesis by simp
qed

end
